theory Spec2Isabelle
  imports Complex_Main "HOL-Library.Word" "HOL-Library.Sublist" "HOL-Library.Log_Nat"
begin

unbundle bit_operations_syntax

section \<open>Bytes and buffers\<close>

text \<open>
  A \<^verbatim>\<open>Uint8Array\<close> is a list of 8-bit words. The image pipeline lives in
  \<^verbatim>\<open>src/EdgeLLMPlus/App.tsx\<close>; every definition below names the source function it
  embeds.
\<close>

type_synonym u8 = "8 word"
type_synonym bytes = "u8 list"

section \<open>FormatSniffer: \<^verbatim>\<open>detectMimeFromBytes\<close>\<close>

datatype mime = BMP | PNG | JPEG | WEBP | UNKNOWN

datatype oob = OutOfBounds nat

text \<open>
  \<^verbatim>\<open>bytes[i] === v\<close>. A read at an index outside the buffer is flagged instead of being
  given JavaScript's \<^verbatim>\<open>undefined\<close>, so that a claim about the indices the function
  reads can be stated on its result.
\<close>

definition byte_is :: "bytes \<Rightarrow> nat \<Rightarrow> u8 \<Rightarrow> oob + bool" where
  "byte_is bs i v = (if i < length bs then Inr (bs ! i = v) else Inl (OutOfBounds i))"

text \<open>A chain of \<^verbatim>\<open>&&\<close>: evaluation stops at the first false conjunct.\<close>

fun and_chain :: "(oob + bool) list \<Rightarrow> oob + bool" where
  "and_chain [] = Inr True"
| "and_chain (t # ts) =
     (case t of Inl e \<Rightarrow> Inl e | Inr b \<Rightarrow> if b then and_chain ts else Inr False)"

definition is_bmp :: "bytes \<Rightarrow> oob + bool" where
  "is_bmp bs = and_chain [Inr (2 \<le> length bs), byte_is bs 0 0x42, byte_is bs 1 0x4d]"

definition is_png :: "bytes \<Rightarrow> oob + bool" where
  "is_png bs = and_chain [Inr (8 \<le> length bs),
     byte_is bs 0 0x89, byte_is bs 1 0x50, byte_is bs 2 0x4e, byte_is bs 3 0x47,
     byte_is bs 4 0x0d, byte_is bs 5 0x0a, byte_is bs 6 0x1a, byte_is bs 7 0x0a]"

definition is_jpeg :: "bytes \<Rightarrow> oob + bool" where
  "is_jpeg bs = and_chain [Inr (3 \<le> length bs),
     byte_is bs 0 0xff, byte_is bs 1 0xd8, byte_is bs 2 0xff]"

definition is_webp :: "bytes \<Rightarrow> oob + bool" where
  "is_webp bs = and_chain [Inr (12 \<le> length bs),
     byte_is bs 0 0x52, byte_is bs 1 0x49, byte_is bs 2 0x46, byte_is bs 3 0x46,
     byte_is bs 8 0x57, byte_is bs 9 0x45, byte_is bs 10 0x42, byte_is bs 11 0x50]"

text \<open>The four tests in the order of the source; the first that holds decides.\<close>

fun first_true :: "((oob + bool) \<times> mime) list \<Rightarrow> oob + mime" where
  "first_true [] = Inr UNKNOWN"
| "first_true ((t, m) # ts) =
     (case t of Inl e \<Rightarrow> Inl e | Inr b \<Rightarrow> if b then Inr m else first_true ts)"

definition detectMimeFromBytes :: "bytes \<Rightarrow> oob + mime" where
  "detectMimeFromBytes bs =
     first_true [(is_bmp bs, BMP), (is_png bs, PNG), (is_jpeg bs, JPEG), (is_webp bs, WEBP)]"

text \<open>The signature table of the specification, read as prefixes of the buffer.\<close>

definition sig_bmp :: bytes where "sig_bmp = [0x42, 0x4d]"
definition sig_png :: bytes where "sig_png = [0x89, 0x50, 0x4e, 0x47, 0x0d, 0x0a, 0x1a, 0x0a]"
definition sig_jpeg :: bytes where "sig_jpeg = [0xff, 0xd8, 0xff]"
definition sig_riff :: bytes where "sig_riff = [0x52, 0x49, 0x46, 0x46]"
definition sig_webp :: bytes where "sig_webp = [0x57, 0x45, 0x42, 0x50]"

definition has_sig :: "nat \<Rightarrow> bytes \<Rightarrow> bytes \<Rightarrow> bool" where
  "has_sig off sg bs = (take (length sg) (drop off bs) = sg)"

section \<open>Strings\<close>

text \<open>
  \<^verbatim>\<open>s.startsWith(p)\<close>, \<^verbatim>\<open>s.includes(p)\<close> and \<^verbatim>\<open>s.replace(/^file:\/\//, "")\<close>.
\<close>

definition startsWith :: "string \<Rightarrow> string \<Rightarrow> bool" where
  "startsWith s p = (take (length p) s = p)"

fun includes_str :: "string \<Rightarrow> string \<Rightarrow> bool" where
  "includes_str [] p = (p = [])"
| "includes_str (c # cs) p = (startsWith (c # cs) p \<or> includes_str cs p)"

definition strip_file :: "string \<Rightarrow> string" where
  "strip_file s = (if startsWith s ''file://'' then drop 7 s else s)"

text \<open>
  The regular expression \<^verbatim>\<open>/format[:=]webp/\<close> is a sequence of character classes;
  \<open>matches\<close> tests it at the head of a string.
\<close>

fun matches :: "string list \<Rightarrow> string \<Rightarrow> bool" where
  "matches [] s = True"
| "matches (cl # cls) [] = False"
| "matches (cl # cls) (c # cs) = (c \<in> set cl \<and> matches cls cs)"

definition hint_re :: "string list" where
  "hint_re = [''f'', ''o'', ''r'', ''m'', ''a'', ''t'', '':='', ''w'', ''e'', ''b'', ''p'']"

text \<open>
  \<^verbatim>\<open>uri.replace(/format[:=]webp/g, "format:jpeg")\<close>: the matches are found from left to
  right, each search starting behind the previous match.
\<close>

fun replace_hint :: "string \<Rightarrow> string" where
  "replace_hint [] = []"
| "replace_hint (c # cs) =
     (if matches hint_re (c # cs) then ''format:jpeg'' @ replace_hint (drop 10 cs)
      else c # replace_hint cs)"

text \<open>\<^verbatim>\<open>uri.includes("format:webp") || uri.includes("format=webp")\<close>\<close>

definition has_hint :: "string \<Rightarrow> bool" where
  "has_hint uri = (includes_str uri ''format:webp'' \<or> includes_str uri ''format=webp'')"

text \<open>
  The extension taken from a URL: \<^verbatim>\<open>uri.split("?")[0].split("#")[0]\<close> matched against
  \<^verbatim>\<open>/\.([a-zA-Z0-9]+)$/\<close>, with \<^verbatim>\<open>"jpg"\<close> when there is no match. The class
  excludes the dot, so only the last dot of the string can start a match.
\<close>

definition alnum :: "char \<Rightarrow> bool" where
  "alnum c =
     (c \<in> set (''abcdefghijklmnopqrstuvwxyz'' @ ''ABCDEFGHIJKLMNOPQRSTUVWXYZ'' @ ''0123456789''))"

definition split_first :: "char \<Rightarrow> string \<Rightarrow> string" where
  "split_first d s = takeWhile (\<lambda>c. c \<noteq> d) s"

definition url_ext :: "string \<Rightarrow> string" where
  "url_ext uri =
     (let clean = split_first (CHR ''#'') (split_first (CHR ''?'') uri);
          suf = rev (takeWhile (\<lambda>c. c \<noteq> CHR ''.'') (rev clean))
      in if length suf < length clean \<and> suf \<noteq> [] \<and> list_all alnum suf then suf else ''jpg'')"

text \<open>A number inside a template string: its decimal digits.\<close>

definition digit :: "nat \<Rightarrow> char" where
  "digit n = ''0123456789'' ! n"

fun decimal :: "nat \<Rightarrow> string" where
  "decimal n = (if n < 10 then [digit n] else decimal (n div 10) @ [digit (n mod 10)])"

declare decimal.simps [simp del]

section \<open>JavaScript numbers\<close>

text \<open>
  Widths, heights and \<^verbatim>\<open>maxSize\<close> are natural numbers. The scale factor of the
  size check is a quotient of two of them, a \<^verbatim>\<open>number\<close>: an IEEE 754 binary64 value.
  A finite non-negative double is a pair \<open>(m, e)\<close> standing for \<open>m * 2 ^ e\<close>; the
  result of an operation is the exact result rounded to 53 significant bits, ties to the
  even mantissa. Overflow and subnormal results do not arise from the operands used here
  (integers below \<open>2 ^ 53\<close>) and are not modelled.
\<close>

type_synonym double = "nat \<times> int"

definition dval :: "double \<Rightarrow> rat" where
  "dval d = (if 0 \<le> snd d then of_nat (fst d) * 2 ^ nat (snd d)
             else of_nat (fst d) / 2 ^ nat (- snd d))"

text \<open>The fraction \<open>n / d\<close> rounded to the nearest integer, ties to even.\<close>

definition rne :: "nat \<Rightarrow> nat \<Rightarrow> nat" where
  "rne n d = (let q = n div d; r = n mod d
              in if 2 * r < d then q else if d < 2 * r then q + 1
                 else if even q then q else q + 1)"

text \<open>
  The double nearest to \<open>n / d\<close> (for \<open>d > 0\<close>). With \<open>k\<close> the difference of the bit
  lengths, \<open>n / d\<close> lies strictly between \<open>2 ^ (k - 1)\<close> and \<open>2 ^ (k + 1)\<close>; the exponent
  \<open>e\<close> is chosen with \<open>2 ^ 52 \<le> (n / d) / 2 ^ e < 2 ^ 53\<close>.
\<close>

definition below_pow2 :: "nat \<Rightarrow> nat \<Rightarrow> int \<Rightarrow> bool" where
  "below_pow2 n d k = (if 0 \<le> k then n < d * 2 ^ nat k else n * 2 ^ nat (- k) < d)"

definition round53 :: "nat \<Rightarrow> nat \<Rightarrow> double" where
  "round53 n d =
     (if n = 0 then (0, 0)
      else let k = int (floorlog 2 n) - int (floorlog 2 d);
               e = (if below_pow2 n d k then k - 53 else k - 52)
           in if 0 \<le> e then (rne n (d * 2 ^ nat e), e) else (rne (n * 2 ^ nat (- e)) d, e))"

definition dbl_mul_nat :: "nat \<Rightarrow> double \<Rightarrow> double" where
  "dbl_mul_nat w x =
     (if 0 \<le> snd x then round53 (w * fst x * 2 ^ nat (snd x)) 1
      else round53 (w * fst x) (2 ^ nat (- snd x)))"

definition dbl_floor :: "double \<Rightarrow> nat" where
  "dbl_floor x = (if 0 \<le> snd x then fst x * 2 ^ nat (snd x) else fst x div 2 ^ nat (- snd x))"

definition dbl_le :: "double \<Rightarrow> double \<Rightarrow> bool" where
  "dbl_le x y = (dval x \<le> dval y)"

text \<open>
  A \<^verbatim>\<open>number\<close> that may also be \<^verbatim>\<open>Infinity\<close> or \<^verbatim>\<open>NaN\<close>:
  \<^verbatim>\<open>maxSize / width\<close> is \<^verbatim>\<open>Infinity\<close> for a zero width and \<^verbatim>\<open>NaN\<close> for
  \<^verbatim>\<open>0 / 0\<close>.
\<close>

datatype jsnum = Fin double | PosInf | NaN

definition js_div :: "nat \<Rightarrow> nat \<Rightarrow> jsnum" where
  "js_div a b = (if b = 0 then (if a = 0 then NaN else PosInf) else Fin (round53 a b))"

fun js_min :: "jsnum \<Rightarrow> jsnum \<Rightarrow> jsnum" where
  "js_min NaN y = NaN"
| "js_min x NaN = NaN"
| "js_min PosInf y = y"
| "js_min x PosInf = x"
| "js_min (Fin x) (Fin y) = (if dbl_le x y then Fin x else Fin y)"

fun js_mul_nat :: "nat \<Rightarrow> jsnum \<Rightarrow> jsnum" where
  "js_mul_nat w NaN = NaN"
| "js_mul_nat w PosInf = (if w = 0 then NaN else PosInf)"
| "js_mul_nat w (Fin x) = Fin (dbl_mul_nat w x)"

text \<open>
  \<^verbatim>\<open>Math.max(1, Math.floor(x))\<close> as a dimension: \<open>None\<close> when the value is not finite.
\<close>

fun floor_max1 :: "jsnum \<Rightarrow> nat option" where
  "floor_max1 (Fin x) = Some (max 1 (dbl_floor x))"
| "floor_max1 PosInf = None"
| "floor_max1 NaN = None"

section \<open>Resampler: \<^verbatim>\<open>resizeNearestRGBA\<close>\<close>

text \<open>
  A read outside a \<^verbatim>\<open>Uint8Array\<close> is \<^verbatim>\<open>undefined\<close>; stored into another
  \<^verbatim>\<open>Uint8Array\<close> it becomes 0. A write outside the array is ignored, as is a list
  update outside the list.
\<close>

definition rd :: "bytes \<Rightarrow> nat \<Rightarrow> u8" where
  "rd src i = (if i < length src then src ! i else 0)"

text \<open>\<^verbatim>\<open>Math.floor(a / b)\<close> for a positive divisor: the double quotient, floored.\<close>

definition floor_div :: "nat \<Rightarrow> nat \<Rightarrow> nat" where
  "floor_div a b = dbl_floor (round53 a b)"

definition resize_pixel ::
  "bytes \<Rightarrow> nat \<Rightarrow> nat \<Rightarrow> nat \<Rightarrow> nat \<Rightarrow> nat \<Rightarrow> nat \<Rightarrow> bytes \<Rightarrow> bytes" where
  "resize_pixel src srcW srcH dstW dstH y x dst =
     (let sy = floor_div (y * srcH) dstH;
          sx = floor_div (x * srcW) dstW;
          si = (sy * srcW + sx) * 4;
          di = (y * dstW + x) * 4
      in dst[di := rd src si, di + 1 := rd src (si + 1),
             di + 2 := rd src (si + 2), di + 3 := rd src (si + 3)])"

definition resizeNearestRGBA :: "bytes \<Rightarrow> nat \<Rightarrow> nat \<Rightarrow> nat \<Rightarrow> nat \<Rightarrow> bytes" where
  "resizeNearestRGBA src srcW srcH dstW dstH =
     fold (\<lambda>y dst. fold (resize_pixel src srcW srcH dstW dstH y) [0..<dstW] dst)
       [0..<dstH] (replicate (dstW * dstH * 4) 0)"

section \<open>BmpEncoder: \<^verbatim>\<open>writeBmp24\<close>\<close>

text \<open>
  \<^verbatim>\<open>DataView.setUint32(off, v, true)\<close>, \<^verbatim>\<open>setInt32\<close> and \<^verbatim>\<open>setUint16\<close>:
  the \<open>n\<close> low bytes of \<open>v\<close>, least significant first, stored at \<open>off\<close>. The output
  buffer holds at least 54 bytes, so no header field is out of its range.
\<close>

definition le_bytes :: "nat \<Rightarrow> nat \<Rightarrow> bytes" where
  "le_bytes n v = map (\<lambda>i. of_nat (v div 256 ^ i)) [0..<n]"

definition dv_set :: "nat \<times> nat \<times> nat \<Rightarrow> bytes \<Rightarrow> bytes" where
  "dv_set f out = (case f of (off, n, v) \<Rightarrow> take off out @ le_bytes n v @ drop (off + n) out)"

definition header_fields :: "nat \<Rightarrow> nat \<Rightarrow> nat \<Rightarrow> nat \<Rightarrow> (nat \<times> nat \<times> nat) list" where
  "header_fields fileSize width height imageSize =
     [(2, 4, fileSize), (6, 4, 0), (10, 4, 54),
      (14, 4, 40), (18, 4, width), (22, 4, height), (26, 2, 1), (28, 2, 24), (30, 4, 0),
      (34, 4, imageSize), (38, 4, 2835), (42, 4, 2835), (46, 4, 0), (50, 4, 0)]"

text \<open>\<^verbatim>\<open>out[offset++] = v\<close> on the pair of the buffer and the running offset.\<close>

type_synonym cursor = "bytes \<times> nat"

definition put :: "u8 \<Rightarrow> cursor \<Rightarrow> cursor" where
  "put v c = ((fst c)[snd c := v], snd c + 1)"

definition bmp_pixel :: "bytes \<Rightarrow> nat \<Rightarrow> nat \<Rightarrow> nat \<Rightarrow> cursor \<Rightarrow> cursor" where
  "bmp_pixel rgba width y x c =
     (let si = (y * width + x) * 4
      in if si + 3 \<ge> length rgba then put 0 (put 0 (put 0 c))
         else put (rgba ! si) (put (rgba ! (si + 1)) (put (rgba ! (si + 2)) c)))"

definition bmp_row :: "bytes \<Rightarrow> nat \<Rightarrow> nat \<Rightarrow> nat \<Rightarrow> cursor \<Rightarrow> cursor" where
  "bmp_row rgba width rowPad y c =
     fold (\<lambda>p. put 0) [0..<rowPad] (fold (bmp_pixel rgba width y) [0..<width] c)"

definition writeBmp24 :: "bytes \<Rightarrow> nat \<Rightarrow> nat \<Rightarrow> bytes" where
  "writeBmp24 rgba width height =
     (let rowStride = width * 3;
          rowPad = (4 - rowStride mod 4) mod 4;
          imageSize = (rowStride + rowPad) * height;
          fileSize = 14 + 40 + imageSize;
          out = (replicate fileSize 0)[0 := 0x42, 1 := 0x4d];
          out = fold dv_set (header_fields fileSize width height imageSize) out
      in fst (fold (bmp_row rgba width rowPad) (rev [0..<height]) (out, 54)))"

section \<open>AlphaCompositor\<close>

text \<open>
  \<^verbatim>\<open>Math.round(c * alpha + 255 * (1 - alpha))\<close> with \<^verbatim>\<open>alpha = a / 255\<close>, evaluated
  over the reals. The exact value is a multiple of \<open>1 / 255\<close>, so it is at least
  \<open>1 / 510\<close> away from every rounding boundary \<open>n + 1 / 2\<close>, while the error of the
  double evaluation is below \<open>10\<^sup>-\<^sup>1\<^sup>2\<close>: the rounded integer is the same.
\<close>

definition js_round :: "real \<Rightarrow> int" where
  "js_round x = \<lfloor>x + 1 / 2\<rfloor>"

definition blend :: "u8 \<Rightarrow> u8 \<Rightarrow> u8" where
  "blend c a =
     (let alpha = real (unat a) / 255
      in of_int (js_round (real (unat c) * alpha + 255 * (1 - alpha))))"

definition composite_pixel :: "bytes \<Rightarrow> nat \<Rightarrow> bytes \<Rightarrow> bytes" where
  "composite_pixel rgba i composited =
     composited[i := blend (rgba ! i) (rgba ! (i + 3)),
                i + 1 := blend (rgba ! (i + 1)) (rgba ! (i + 3)),
                i + 2 := blend (rgba ! (i + 2)) (rgba ! (i + 3)),
                i + 3 := 255]"

text \<open>
  The loop \<^verbatim>\<open>for (i = 0; i < rgba.length; i += 4)\<close>. It runs only behind the test
  \<^verbatim>\<open>rgba.length === width * height * 4\<close>, so the length is a multiple of 4 and every
  index it reads is inside the buffer.
\<close>

definition alpha_composite :: "bytes \<Rightarrow> bytes" where
  "alpha_composite rgba =
     fold (\<lambda>k. composite_pixel rgba (4 * k)) [0..<length rgba div 4]
       (replicate (length rgba) 0)"

definition composite_if_sized :: "nat \<Rightarrow> nat \<Rightarrow> bytes option \<Rightarrow> bytes option" where
  "composite_if_sized width height rgba =
     (case rgba of None \<Rightarrow> None
      | Some px \<Rightarrow> if length px = width * height * 4 then Some (alpha_composite px) else Some px)"

section \<open>The world outside: file system, network, clock, decoders\<close>

text \<open>
  The pipeline reads and writes files through \<^verbatim>\<open>RNFS\<close>, downloads through
  \<^verbatim>\<open>RNFS.downloadFile\<close>, reads the clock with \<^verbatim>\<open>Date.now()\<close> and decodes with the
  libraries \<^verbatim>\<open>UPNG\<close> and \<^verbatim>\<open>jpeg-js\<close>. None of them is code of the repository; they
  are parameters. The server answers the \<open>n\<close>-th request by \<open>remote n url\<close> (\<open>None\<close>:
  the download fails), and the \<open>n\<close>-th reading of the clock is \<open>clock n\<close>; neither is
  assumed to repeat or to advance. A write succeeds on the paths that are \<open>writable\<close>.
  The base64 round trip of \<^verbatim>\<open>readFile\<close> and \<^verbatim>\<open>writeFile\<close> is the identity on bytes.
\<close>

datatype error = DecodeError | RangeError

record world =
  files :: "string \<Rightarrow> bytes option"
  remote :: "nat \<Rightarrow> string \<Rightarrow> bytes option"
  requested :: "string list"
  clock :: "nat \<Rightarrow> nat"
  ticks :: nat
  writable :: "string \<Rightarrow> bool"

record env =
  CachesDirectoryPath :: string
  UPNG_decode :: "bytes \<Rightarrow> error + nat \<times> nat \<times> bytes list"
  JPEG_decode :: "bytes \<Rightarrow> error + nat \<times> nat \<times> bytes"

text \<open>
  \<open>UPNG_decode\<close> stands for \<^verbatim>\<open>UPNG.decode\<close> followed by \<^verbatim>\<open>UPNG.toRGBA8\<close>: the
  width, the height and the list of RGBA frames, or the exception either of them throws.
\<close>

definition Date_now :: "world \<Rightarrow> nat \<times> world" where
  "Date_now w = (clock w (ticks w), w\<lparr>ticks := Suc (ticks w)\<rparr>)"

definition writeFile :: "string \<Rightarrow> bytes \<Rightarrow> world \<Rightarrow> world option" where
  "writeFile path content w =
     (if writable w path then Some (w\<lparr>files := (files w)(path \<mapsto> content)\<rparr>) else None)"

text \<open>\<^verbatim>\<open>RNFS.downloadFile({fromUrl, toFile}).promise\<close>; the request is logged.\<close>

definition downloadFile :: "string \<Rightarrow> string \<Rightarrow> world \<Rightarrow> bool \<times> world" where
  "downloadFile fromUrl toFile w =
     (let w1 = w\<lparr>requested := requested w @ [fromUrl]\<rparr>
      in case remote w (length (requested w)) fromUrl of
           None \<Rightarrow> (False, w1)
         | Some content \<Rightarrow>
             (case writeFile toFile content w1 of None \<Rightarrow> (False, w1) | Some w2 \<Rightarrow> (True, w2)))"

section \<open>MediaLocator: \<^verbatim>\<open>toMediaPath\<close>\<close>

text \<open>
  A failed download rejects the promise inside the \<^verbatim>\<open>try\<close>, and the \<^verbatim>\<open>catch\<close>
  returns \<^verbatim>\<open>null\<close>. Any other reference, a content-provider URI among them, falls
  through to the last \<^verbatim>\<open>return null\<close>.
\<close>

definition toMediaPath :: "env \<Rightarrow> string \<Rightarrow> world \<Rightarrow> string option \<times> world" where
  "toMediaPath ev uri w =
     (if uri = [] then (None, w)
      else if startsWith uri ''file://'' \<or> startsWith uri ''/''
      then (Some (''file://'' @ strip_file uri), w)
      else if startsWith uri ''http://'' \<or> startsWith uri ''https://''
      then (let ext = url_ext uri;
                (t, w1) = Date_now w;
                dest = CachesDirectoryPath ev @ ''/llm_img_'' @ decimal t @ ''.'' @ ext;
                (ok, w2) = downloadFile uri dest w1
            in if ok then (Some (''file://'' @ dest), w2) else (None, w2))
      else (None, w))"

section \<open>MediaNormalizer: the stages of \<^verbatim>\<open>ensureBmpForMedia\<close>\<close>

text \<open>The classification used by the orchestrator.\<close>

definition mime_of :: "bytes \<Rightarrow> mime" where
  "mime_of bs = (case detectMimeFromBytes bs of Inr m \<Rightarrow> m | Inl e \<Rightarrow> UNKNOWN)"

text \<open>The variables \<^verbatim>\<open>width\<close>, \<^verbatim>\<open>height\<close> and \<^verbatim>\<open>rgba\<close> (which may be \<^verbatim>\<open>null\<close>).\<close>

datatype image = Image nat nat "bytes option"

definition placeholder :: image where
  "placeholder = Image 1 1 (Some [255, 255, 255, 255])"

definition frame0 :: "bytes list \<Rightarrow> bytes option" where
  "frame0 frames = (case frames of [] \<Rightarrow> None | f # fs \<Rightarrow> Some f)"

definition decode_png :: "env \<Rightarrow> bytes \<Rightarrow> error + image" where
  "decode_png ev bs =
     (case UPNG_decode ev bs of
        Inl e \<Rightarrow> Inl e
      | Inr (width, height, frames) \<Rightarrow>
          Inr (Image width height (composite_if_sized width height (frame0 frames))))"

definition decode_jpeg :: "env \<Rightarrow> bytes \<Rightarrow> error + image" where
  "decode_jpeg ev bs =
     (case JPEG_decode ev bs of
        Inl e \<Rightarrow> Inl e
      | Inr (width, height, pixels) \<Rightarrow> Inr (Image width height (Some pixels)))"

text \<open>The branch for an unknown format: PNG first, then JPEG, then the placeholder.\<close>

definition decode_unknown :: "env \<Rightarrow> bytes \<Rightarrow> image" where
  "decode_unknown ev bs =
     (case decode_png ev bs of
        Inr img \<Rightarrow> img
      | Inl e \<Rightarrow> (case decode_jpeg ev bs of Inr img \<Rightarrow> img | Inl e2 \<Rightarrow> placeholder))"

text \<open>\<^verbatim>\<open>if (!rgba) { width = 1; height = 1; rgba = new Uint8Array([255,255,255,255]); }\<close>\<close>

definition or_placeholder :: "image \<Rightarrow> nat \<times> nat \<times> bytes" where
  "or_placeholder img =
     (case img of Image width height None \<Rightarrow> (1, 1, [255, 255, 255, 255])
      | Image width height (Some px) \<Rightarrow> (width, height, px))"

text \<open>
  The size check. When a dimension is zero the scale factor can be \<^verbatim>\<open>NaN\<close>; the new
  dimensions are then \<^verbatim>\<open>NaN\<close>, \<^verbatim>\<open>resizeNearestRGBA\<close> returns an empty array and the
  first \<^verbatim>\<open>DataView\<close> write of \<^verbatim>\<open>writeBmp24\<close> throws a \<^verbatim>\<open>RangeError\<close>.
\<close>

definition new_dims :: "nat \<Rightarrow> nat \<Rightarrow> nat \<Rightarrow> (nat \<times> nat) option" where
  "new_dims maxSize width height =
     (let scale = js_min (js_div maxSize width) (js_div maxSize height)
      in case (floor_max1 (js_mul_nat width scale), floor_max1 (js_mul_nat height scale)) of
           (Some nw, Some nh) \<Rightarrow> Some (nw, nh)
         | _ \<Rightarrow> None)"

definition size_check :: "nat \<Rightarrow> nat \<times> nat \<times> bytes \<Rightarrow> error + nat \<times> nat \<times> bytes" where
  "size_check maxSize img =
     (case img of (width, height, rgba) \<Rightarrow>
        if width > maxSize \<or> height > maxSize
        then (case new_dims maxSize width height of
                None \<Rightarrow> Inl RangeError
              | Some (nw, nh) \<Rightarrow> Inr (nw, nh, resizeNearestRGBA rgba width height nw nh))
        else Inr (width, height, rgba))"

text \<open>\<^verbatim>\<open>options.maxSize ?? 1024\<close>\<close>

definition max_size :: "nat option \<Rightarrow> nat" where
  "max_size opt = (case opt of None \<Rightarrow> 1024 | Some m \<Rightarrow> m)"

text \<open>
  From the placeholder test to the \<^verbatim>\<open>return\<close>: size check, encoding, the write to a
  file named after the clock, and \<^verbatim>\<open>RNFS.stat\<close> on it. Every exception is caught by the
  outer \<^verbatim>\<open>catch\<close>, which returns \<^verbatim>\<open>null\<close>.
\<close>

definition encode_and_write :: "env \<Rightarrow> nat option \<Rightarrow> image \<Rightarrow> world \<Rightarrow> string option \<times> world" where
  "encode_and_write ev opt img w =
     (case size_check (max_size opt) (or_placeholder img) of
        Inl e \<Rightarrow> (None, w)
      | Inr (width, height, rgba) \<Rightarrow>
          (let bmpBytes = writeBmp24 rgba width height;
               (t, w1) = Date_now w;
               outPath = CachesDirectoryPath ev @ ''/llm_img_'' @ decimal t @ ''.bmp''
           in case writeFile outPath bmpBytes w1 of
                None \<Rightarrow> (None, w1)
              | Some w2 \<Rightarrow>
                  (case files w2 outPath of
                     None \<Rightarrow> (None, w2)
                   | Some content \<Rightarrow> (Some (''file://'' @ outPath), w2))))"

text \<open>\<^verbatim>\<open>RNFS.readFile\<close> of the path behind a \<^verbatim>\<open>file://\<close> reference.\<close>

definition readFile :: "string \<Rightarrow> world \<Rightarrow> bytes option" where
  "readFile local w = files w (strip_file local)"

text \<open>
  The attempt of the WebP branch to obtain another rendition, up to the recursive call:
  the reference is rewritten when it carries a hint, resolved and read; the result tells
  whether the alternate bytes are JPEG or PNG. A failed read throws inside the inner
  \<^verbatim>\<open>try\<close>, whose \<^verbatim>\<open>catch\<close> takes the placeholder as well.
\<close>

definition webp_alternative :: "env \<Rightarrow> string \<Rightarrow> world \<Rightarrow> bool \<times> world" where
  "webp_alternative ev uri w1 =
     (if has_hint uri
      then (case toMediaPath ev (replace_hint uri) w1 of
              (None, w2) \<Rightarrow> (False, w2)
            | (Some altLocal, w2) \<Rightarrow>
                (case readFile altLocal w2 of
                   None \<Rightarrow> (False, w2)
                 | Some altBytes \<Rightarrow>
                     (mime_of altBytes = JPEG \<or> mime_of altBytes = PNG, w2)))
      else (False, w1))"

text \<open>
  The decoding branches. In the PNG and the JPEG branch an exception of the decoder is
  not caught before the outer \<^verbatim>\<open>catch\<close>; the branch for an unknown format catches it.
\<close>

definition decode_branch :: "env \<Rightarrow> mime \<Rightarrow> bytes \<Rightarrow> error + image" where
  "decode_branch ev m bs =
     (if m = PNG then decode_png ev bs
      else if m = JPEG then decode_jpeg ev bs
      else Inr (decode_unknown ev bs))"


section \<open>Auxiliary notions for the statements\<close>






text \<open>
  The loops of the compositor and of the resampler fill a buffer in blocks of four bytes;
  \<open>fill4 v k\<close> writes block \<open>k\<close> with the values \<open>v\<close> gives for its four indices.
\<close>

definition fill4 :: "(nat \<Rightarrow> u8) \<Rightarrow> nat \<Rightarrow> bytes \<Rightarrow> bytes" where
  "fill4 v k d = d[4 * k := v (4 * k), 4 * k + 1 := v (4 * k + 1),
                   4 * k + 2 := v (4 * k + 2), 4 * k + 3 := v (4 * k + 3)]"


definition resized_at :: "bytes \<Rightarrow> nat \<Rightarrow> nat \<Rightarrow> nat \<Rightarrow> nat \<Rightarrow> nat \<Rightarrow> u8" where
  "resized_at src srcW srcH dstW dstH j =
     rd src ((floor_div (j div 4 div dstW * srcH) dstH * srcW
              + floor_div (j div 4 mod dstW * srcW) dstW) * 4 + j mod 4)"

text \<open>An occurrence of the hint somewhere in a string.\<close>

fun occurs :: "string \<Rightarrow> bool" where
  "occurs [] = False"
| "occurs (c # cs) = (matches hint_re (c # cs) \<or> occurs cs)"

text \<open>The name of a cache file: \<^verbatim>\<open>`${RNFS.CachesDirectoryPath}/llm_img_${t}.${ext}`\<close>.\<close>

definition cache_file :: "env \<Rightarrow> nat \<Rightarrow> string \<Rightarrow> string" where
  "cache_file ev t ext = CachesDirectoryPath ev @ ''/llm_img_'' @ decimal t @ ''.'' @ ext"

text \<open>
  One pass of the orchestrator that never retries: resolve, read, classify, pass through,
  decode or take the placeholder, encode and write.
\<close>

definition single_pass :: "env \<Rightarrow> string \<Rightarrow> nat option \<Rightarrow> world \<Rightarrow> string option \<times> world" where
  "single_pass ev uri opt w =
     (case toMediaPath ev uri w of
        (None, w1) \<Rightarrow> (None, w1)
      | (Some local, w1) \<Rightarrow>
          (case readFile local w1 of
             None \<Rightarrow> (None, w1)
           | Some bs \<Rightarrow>
               if mime_of bs = BMP then (Some local, w1)
               else if mime_of bs = WEBP then encode_and_write ev opt placeholder w1
               else (case decode_branch ev (mime_of bs) bs of
                       Inl e \<Rightarrow> (None, w1)
                     | Inr img \<Rightarrow> encode_and_write ev opt img w1)))"


text \<open>Twelve bytes that carry the WebP signature.\<close>

definition webp_header :: bytes where
  "webp_header = [0x52, 0x49, 0x46, 0x46, 0, 0, 0, 0, 0x57, 0x45, 0x42, 0x50]"

section \<open>Example environments\<close>

text \<open>
  Decoders that reject every input; a decoder that takes the four bytes behind a JPEG
  signature as one pixel; a world that holds the given local files, has no network, a
  clock that stands at 1000 and a cache that can be written; the same world with a
  server that answers one URL.
\<close>

definition failing_decoders :: env where
  "failing_decoders =
     \<lparr>CachesDirectoryPath = ''/cache'',
      UPNG_decode = (\<lambda>bs. Inl DecodeError), JPEG_decode = (\<lambda>bs. Inl DecodeError)\<rparr>"


definition local_files :: "(string \<times> bytes) list \<Rightarrow> world" where
  "local_files fs =
     \<lparr>files = map_of fs, remote = (\<lambda>n url. None), requested = [],
      clock = (\<lambda>n. 1000), ticks = 0, writable = (\<lambda>p. True)\<rparr>"

definition serving :: "string \<Rightarrow> bytes \<Rightarrow> world" where
  "serving url content =
     \<lparr>files = Map.empty, remote = (\<lambda>n u. if u = url then Some content else None),
      requested = [], clock = (\<lambda>n. 1000), ticks = 0, writable = (\<lambda>p. True)\<rparr>"



text \<open>
  Two files with the PNG signature: one followed by the four bytes of a transparent
  pixel, one followed by eight bytes.
\<close>

definition transparent_png :: bytes where
  "transparent_png = [0x89, 0x50, 0x4e, 0x47, 0x0d, 0x0a, 0x1a, 0x0a, 10, 20, 30, 0]"


text \<open>
  The dimension the specification gives for a resized image:
  \<open>floor (dim * maxSize / max width height)\<close>, at least 1, in exact arithmetic.
\<close>

definition exact_dim :: "nat \<Rightarrow> nat \<Rightarrow> nat \<Rightarrow> nat \<Rightarrow> nat" where
  "exact_dim maxSize width height d = max 1 (d * maxSize div max width height)"

section \<open>The rewritten reference carries no hint\<close>

lemma matches_suffix_replace:
  "suffix ps hint_re \<Longrightarrow> matches ps (replace_hint s) \<Longrightarrow> matches ps s"
proof (induction s arbitrary: ps rule: replace_hint.induct)
  case 1
  then show ?case by simp
next
  case (2 c cs)
  show ?case
  proof (cases "matches hint_re (c # cs)")
    case True
    have "ps \<in> set (suffixes hint_re)" using "2.prems"(1) by simp
    then show ?thesis using True "2.prems"(2)
      by (auto simp: hint_re_def)
  next
    case False
    show ?thesis
    proof (cases ps)
      case Nil
      then show ?thesis by simp
    next
      case (Cons p ps')
      have "suffix ps' hint_re" using "2.prems"(1) Cons by (auto dest: suffix_ConsD)
      then show ?thesis using False "2.IH"(2)[of ps'] "2.prems"(2) Cons by simp
    qed
  qed
qed

lemma no_match_replace: "\<not> matches hint_re (replace_hint s)"
proof (cases s)
  case Nil
  then show ?thesis by (simp add: hint_re_def)
next
  case (Cons c cs)
  show ?thesis
  proof (cases "matches hint_re (c # cs)")
    case True
    then show ?thesis using Cons by (simp add: hint_re_def)
  next
    case False
    then show ?thesis using matches_suffix_replace[of hint_re s] Cons by auto
  qed
qed


lemma no_occurs_replace: "\<not> occurs (replace_hint s)"
proof (induction s rule: replace_hint.induct)
  case 1
  then show ?case by simp
next
  case (2 c cs)
  show ?case
  proof (cases "matches hint_re (c # cs)")
    case True
    then show ?thesis using "2.IH"(1) by (simp add: hint_re_def)
  next
    case False
    then show ?thesis using "2.IH"(2) no_match_replace[of "c # cs"] by simp
  qed
qed

lemma startsWith_append: "startsWith s p \<Longrightarrow> \<exists>t. s = p @ t"
  unfolding startsWith_def by (metis append_take_drop_id)

lemma startsWith_hint_matches:
  "startsWith s ''format:webp'' \<or> startsWith s ''format=webp'' \<Longrightarrow> matches hint_re s"
  by (auto dest!: startsWith_append simp: hint_re_def)

lemma includes_hint_occurs:
  "includes_str s ''format:webp'' \<or> includes_str s ''format=webp'' \<Longrightarrow> occurs s"
proof (induction s)
  case Nil
  then show ?case by simp
next
  case (Cons c cs)
  then show ?case using startsWith_hint_matches[of "c # cs"] by auto
qed

lemma no_hint_replace: "\<not> has_hint (replace_hint uri)"
  using includes_hint_occurs[of "replace_hint uri"] no_occurs_replace[of uri]
  by (auto simp: has_hint_def)


section \<open>MediaNormalizer: \<^verbatim>\<open>ensureBmpForMedia\<close>\<close>

text \<open>
  The orchestrator. A \<^verbatim>\<open>null\<close> from \<^verbatim>\<open>toMediaPath\<close> and every exception that reaches
  the outer \<^verbatim>\<open>catch\<close> give \<^verbatim>\<open>null\<close>. The recursive call on the rewritten reference
  resolves and reads it again.
\<close>

lemma webp_alternative_hint: "webp_alternative ev uri w1 = (True, w2) \<Longrightarrow> has_hint uri"
  by (simp add: webp_alternative_def split: if_splits)

function ensureBmpForMedia :: "env \<Rightarrow> string \<Rightarrow> nat option \<Rightarrow> world \<Rightarrow> string option \<times> world" where
  "ensureBmpForMedia ev uri opt w =
     (case toMediaPath ev uri w of
        (None, w1) \<Rightarrow> (None, w1)
      | (Some local, w1) \<Rightarrow>
          (case readFile local w1 of
             None \<Rightarrow> (None, w1)
           | Some bs \<Rightarrow>
               (let mime = mime_of bs
                in if mime = BMP then (Some local, w1)
                   else if mime = WEBP
                   then (let (retry, w2) = webp_alternative ev uri w1
                         in if retry then ensureBmpForMedia ev (replace_hint uri) opt w2
                            else encode_and_write ev opt placeholder w2)
                   else (case decode_branch ev mime bs of
                           Inl e \<Rightarrow> (None, w1)
                         | Inr img \<Rightarrow> encode_and_write ev opt img w1))))"
  by pat_completeness auto
termination
  by (relation "measure (\<lambda>(ev, uri, opt, w). if has_hint uri then 1 else 0)")
     (auto simp: no_hint_replace dest: webp_alternative_hint[OF sym])

declare ensureBmpForMedia.simps [simp del]





section \<open>Classification equals the signature table\<close>

lemma has_sig_Nil: "has_sig off [] bs"
  by (simp add: has_sig_def)

lemma has_sig_Cons:
  "has_sig off (v # vs) bs \<longleftrightarrow> off < length bs \<and> bs ! off = v \<and> has_sig (off + 1) vs bs"
proof (cases "off < length bs")
  case True
  then have "drop off bs = bs ! off # drop (Suc off) bs"
    by (simp add: Cons_nth_drop_Suc)
  then show ?thesis using True by (simp add: has_sig_def)
next
  case False
  then show ?thesis by (simp add: has_sig_def)
qed

lemma and_chain_Inr:
  "and_chain (Inr b # ts) = (if b then and_chain ts else Inr False)"
  by simp

lemma and_chain_byte:
  "and_chain (byte_is bs i v # ts) =
     (if i < length bs then (if bs ! i = v then and_chain ts else Inr False) else Inl (OutOfBounds i))"
  by (simp add: byte_is_def)

lemmas sig_simps = has_sig_Cons has_sig_Nil and_chain_Inr and_chain_byte

lemma is_bmp_iff: "is_bmp bs = Inr (has_sig 0 sig_bmp bs)"
  by (auto simp add: is_bmp_def sig_bmp_def sig_simps eval_nat_numeral simp del: and_chain.simps(2))

lemma is_png_iff: "is_png bs = Inr (has_sig 0 sig_png bs)"
  by (auto simp add: is_png_def sig_png_def sig_simps eval_nat_numeral simp del: and_chain.simps(2))

lemma is_jpeg_iff: "is_jpeg bs = Inr (has_sig 0 sig_jpeg bs)"
  by (auto simp add: is_jpeg_def sig_jpeg_def sig_simps eval_nat_numeral simp del: and_chain.simps(2))

lemma is_webp_iff: "is_webp bs = Inr (has_sig 0 sig_riff bs \<and> has_sig 8 sig_webp bs)"
  by (auto simp add: is_webp_def sig_riff_def sig_webp_def sig_simps eval_nat_numeral simp del: and_chain.simps(2))

lemma detect_table:
  "detectMimeFromBytes bs = Inr (if has_sig 0 sig_bmp bs then BMP else if has_sig 0 sig_png bs then PNG
     else if has_sig 0 sig_jpeg bs then JPEG else if has_sig 0 sig_riff bs \<and> has_sig 8 sig_webp bs then WEBP else UNKNOWN)"
  by (simp add: detectMimeFromBytes_def is_bmp_iff is_png_iff is_jpeg_iff is_webp_iff)

lemma sig_excl:
  "has_sig 0 sig_bmp bs \<Longrightarrow> \<not> has_sig 0 sig_png bs \<and> \<not> has_sig 0 sig_jpeg bs \<and> \<not> has_sig 0 sig_riff bs"
  "has_sig 0 sig_png bs \<Longrightarrow> \<not> has_sig 0 sig_jpeg bs \<and> \<not> has_sig 0 sig_riff bs"
  "has_sig 0 sig_jpeg bs \<Longrightarrow> \<not> has_sig 0 sig_riff bs"
  by (auto simp: sig_bmp_def sig_png_def sig_jpeg_def sig_riff_def has_sig_Cons)

lemma short_no_sig:
  "length bs < 2 \<Longrightarrow> \<not> has_sig 0 sig_bmp bs \<and> \<not> has_sig 0 sig_png bs \<and> \<not> has_sig 0 sig_jpeg bs \<and> \<not> has_sig 0 sig_riff bs"
  by (auto simp: sig_bmp_def sig_png_def sig_jpeg_def sig_riff_def has_sig_Cons)

text \<open>
  C3. For every byte sequence the classification is the one of the signature table: BMP
  iff bytes 0-1 are \<open>42 4D\<close>, PNG iff bytes 0-7 are \<open>89 50 4E 47 0D 0A 1A 0A\<close>, JPEG iff
  bytes 0-2 are \<open>FF D8 FF\<close>, WEBP iff bytes 0-3 are \<open>RIFF\<close> and bytes 8-11 are \<open>WEBP\<close>,
  and UNKNOWN otherwise, in particular for every buffer shorter than 2 bytes; no index
  outside the buffer is read.
\<close>

theorem classification_is_signature_table:
  "(detectMimeFromBytes bs = Inr BMP \<longleftrightarrow> has_sig 0 sig_bmp bs) \<and>
   (detectMimeFromBytes bs = Inr PNG \<longleftrightarrow> has_sig 0 sig_png bs) \<and>
   (detectMimeFromBytes bs = Inr JPEG \<longleftrightarrow> has_sig 0 sig_jpeg bs) \<and>
   (detectMimeFromBytes bs = Inr WEBP \<longleftrightarrow> has_sig 0 sig_riff bs \<and> has_sig 8 sig_webp bs) \<and>
   (detectMimeFromBytes bs = Inr UNKNOWN \<longleftrightarrow>
      \<not> has_sig 0 sig_bmp bs \<and> \<not> has_sig 0 sig_png bs \<and> \<not> has_sig 0 sig_jpeg bs \<and>
      \<not> (has_sig 0 sig_riff bs \<and> has_sig 8 sig_webp bs)) \<and>
   (length bs < 2 \<longrightarrow> detectMimeFromBytes bs = Inr UNKNOWN) \<and>
   (\<forall>i. detectMimeFromBytes bs \<noteq> Inl (OutOfBounds i))"
  using sig_excl[of bs] short_no_sig[of bs] by (auto simp add: detect_table)

theorem classification_is_signature_table_witness:
  "length [0x42 :: u8] < 2 \<and> detectMimeFromBytes [0x42] = Inr UNKNOWN"
  using classification_is_signature_table [of "[0x42]"] by simp


section \<open>The encoder writes the header and the rows\<close>

















section \<open>The paths through the orchestrator\<close>

lemma strip_file_prefixed: "strip_file (''file://'' @ q) = q"
  by (simp add: strip_file_def startsWith_def)

lemma strip_file_Cons:
  "strip_file (CHR ''f'' # CHR ''i'' # CHR ''l'' # CHR ''e'' # CHR '':'' # CHR ''/'' # CHR ''/'' # q) = q"
  using strip_file_prefixed[of q] by simp

lemma startsWith_nonempty: "startsWith s p \<Longrightarrow> p \<noteq> [] \<Longrightarrow> s \<noteq> []"
  by (auto simp: startsWith_def)

lemma toMediaPath_local:
  "startsWith uri ''file://'' \<or> startsWith uri ''/'' \<Longrightarrow>
   toMediaPath ev uri w = (Some (''file://'' @ strip_file uri), w)"
  by (auto simp: toMediaPath_def dest: startsWith_nonempty)

lemma toMediaPath_other:
  "\<not> startsWith uri ''file://'' \<Longrightarrow> \<not> startsWith uri ''/'' \<Longrightarrow>
   \<not> startsWith uri ''http://'' \<Longrightarrow> \<not> startsWith uri ''https://'' \<Longrightarrow>
   toMediaPath ev uri w = (None, w)"
  by (simp add: toMediaPath_def)

lemma toMediaPath_Some:
  "toMediaPath ev uri w = (Some l, w') \<Longrightarrow> \<exists>q. l = ''file://'' @ q"
  by (auto simp: toMediaPath_def Let_def split: if_splits prod.splits)

lemma encode_and_write_Some:
  "encode_and_write ev opt img w = (Some p, w') \<Longrightarrow>
   \<exists>q. p = ''file://'' @ q \<and> files w' q \<noteq> None"
  by (auto simp: encode_and_write_def Let_def split: sum.splits prod.splits option.splits)

lemma requested_encode_and_write:
  "requested (snd (encode_and_write ev opt img w)) = requested w"
  by (auto simp: encode_and_write_def Let_def Date_now_def writeFile_def
           split: sum.splits prod.splits option.splits if_splits)

lemma ensure_unfold:
  assumes "toMediaPath ev uri w = (Some local, w1)" and "readFile local w1 = Some bs"
  shows "ensureBmpForMedia ev uri opt w =
           (if mime_of bs = BMP then (Some local, w1)
            else if mime_of bs = WEBP
            then (if fst (webp_alternative ev uri w1)
                  then ensureBmpForMedia ev (replace_hint uri) opt (snd (webp_alternative ev uri w1))
                  else encode_and_write ev opt placeholder (snd (webp_alternative ev uri w1)))
            else (case decode_branch ev (mime_of bs) bs of
                    Inl e \<Rightarrow> (None, w1)
                  | Inr img \<Rightarrow> encode_and_write ev opt img w1))"
  using assms by (subst ensureBmpForMedia.simps) (simp add: Let_def split_beta)

lemma ensure_unresolved:
  "toMediaPath ev uri w = (None, w1) \<Longrightarrow> ensureBmpForMedia ev uri opt w = (None, w1)"
  by (subst ensureBmpForMedia.simps) simp

lemma ensure_unreadable:
  "toMediaPath ev uri w = (Some local, w1) \<Longrightarrow> readFile local w1 = None \<Longrightarrow>
   ensureBmpForMedia ev uri opt w = (None, w1)"
  by (subst ensureBmpForMedia.simps) simp

lemma ensure_cases:
  obtains (fail) "fst (ensureBmpForMedia ev uri opt w) = None"
  | (passthrough) local w1 bs where "toMediaPath ev uri w = (Some local, w1)"
      "readFile local w1 = Some bs" "ensureBmpForMedia ev uri opt w = (Some local, w1)"
  | (encoded) img w1 where "ensureBmpForMedia ev uri opt w = encode_and_write ev opt img w1"
  | (retry) w2 where "has_hint uri"
      "ensureBmpForMedia ev uri opt w = ensureBmpForMedia ev (replace_hint uri) opt w2"
proof (cases "toMediaPath ev uri w")
  case (Pair l w1)
  show ?thesis
  proof (cases l)
    case None
    then have "fst (ensureBmpForMedia ev uri opt w) = None"
      using Pair by (simp add: ensure_unresolved)
    then show ?thesis by (rule fail)
  next
    case (Some local)
    note tm = Pair[unfolded Some]
    show ?thesis
    proof (cases "readFile local w1")
      case None
      then have "fst (ensureBmpForMedia ev uri opt w) = None"
        using tm by (simp add: ensure_unreadable)
      then show ?thesis by (rule fail)
    next
      case (Some bs)
      note E = ensure_unfold[OF tm Some, of opt]
      consider "mime_of bs = BMP" | "mime_of bs = WEBP" "fst (webp_alternative ev uri w1)"
        | "mime_of bs = WEBP" "\<not> fst (webp_alternative ev uri w1)"
        | "mime_of bs \<noteq> BMP" "mime_of bs \<noteq> WEBP" by blast
      then show ?thesis
      proof cases
        case 1
        then have "ensureBmpForMedia ev uri opt w = (Some local, w1)" by (simp add: E)
        with tm Some show ?thesis by (rule passthrough)
      next
        case 2
        then have "has_hint uri"
          by (metis webp_alternative_hint prod.collapse)
        moreover have "ensureBmpForMedia ev uri opt w
            = ensureBmpForMedia ev (replace_hint uri) opt (snd (webp_alternative ev uri w1))"
          using 2 by (simp add: E)
        ultimately show ?thesis by (rule retry)
      next
        case 3
        then have "ensureBmpForMedia ev uri opt w
            = encode_and_write ev opt placeholder (snd (webp_alternative ev uri w1))"
          by (simp add: E)
        then show ?thesis by (rule encoded)
      next
        case 4
        show ?thesis
        proof (cases "decode_branch ev (mime_of bs) bs")
          case (Inl e)
          then have "fst (ensureBmpForMedia ev uri opt w) = None" using 4 by (simp add: E)
          then show ?thesis by (rule fail)
        next
          case (Inr img)
          then have "ensureBmpForMedia ev uri opt w = encode_and_write ev opt img w1"
            using 4 by (simp add: E)
          then show ?thesis by (rule encoded)
        qed
      qed
    qed
  qed
qed

lemma mime_of_table:
  "mime_of bs = (if has_sig 0 sig_bmp bs then BMP else if has_sig 0 sig_png bs then PNG
     else if has_sig 0 sig_jpeg bs then JPEG
     else if has_sig 0 sig_riff bs \<and> has_sig 8 sig_webp bs then WEBP else UNKNOWN)"
  by (simp add: mime_of_def detect_table)

lemmas sig_defs = has_sig_def sig_bmp_def sig_png_def sig_jpeg_def sig_riff_def sig_webp_def

lemma startsWith_http_not_local:
  assumes "startsWith uri ''http://'' \<or> startsWith uri ''https://''"
  shows "uri \<noteq> [] \<and> \<not> startsWith uri ''file://'' \<and> \<not> startsWith uri ''/''"
proof -
  from assms obtain t where "uri = ''http://'' @ t \<or> uri = ''https://'' @ t"
    by (auto dest: startsWith_append)
  then show ?thesis by (auto simp: startsWith_def)
qed

lemma toMediaPath_http:
  assumes "startsWith uri ''http://'' \<or> startsWith uri ''https://''"
  shows "toMediaPath ev uri w =
     (let dest = cache_file ev (clock w (ticks w)) (url_ext uri);
          w1 = w\<lparr>ticks := Suc (ticks w), requested := requested w @ [uri]\<rparr>
      in case remote w (length (requested w)) uri of
           None \<Rightarrow> (None, w1)
         | Some content \<Rightarrow>
             if writable w dest
             then (Some (''file://'' @ dest), w1\<lparr>files := (files w)(dest \<mapsto> content)\<rparr>)
             else (None, w1))"
  using startsWith_http_not_local[OF assms] assms
  by (auto simp: toMediaPath_def Let_def Date_now_def downloadFile_def writeFile_def cache_file_def
           split: option.splits)

lemma returned_path_nohint:
  assumes nh: "\<not> has_hint uri" and r: "ensureBmpForMedia ev uri opt w = (Some p, w')"
  shows "\<exists>q. p = ''file://'' @ q \<and> files w' q \<noteq> None"
proof (cases rule: ensure_cases[of ev uri opt w])
  case fail
  then show ?thesis using r by simp
next
  case (passthrough local w1 bs)
  then obtain q where "local = ''file://'' @ q" by (auto dest: toMediaPath_Some)
  then show ?thesis using passthrough r by (auto simp: readFile_def strip_file_Cons)
next
  case (encoded img w1)
  then have "encode_and_write ev opt img w1 = (Some p, w')" using r by simp
  then show ?thesis by (rule encode_and_write_Some)
next
  case (retry w2)
  then show ?thesis using nh by simp
qed

lemma returned_path:
  assumes r: "ensureBmpForMedia ev uri opt w = (Some p, w')"
  shows "\<exists>q. p = ''file://'' @ q \<and> files w' q \<noteq> None"
proof (cases rule: ensure_cases[of ev uri opt w])
  case fail
  then show ?thesis using r by simp
next
  case (passthrough local w1 bs)
  then obtain q where "local = ''file://'' @ q" by (auto dest: toMediaPath_Some)
  then show ?thesis using passthrough r by (auto simp: readFile_def strip_file_Cons)
next
  case (encoded img w1)
  then have "encode_and_write ev opt img w1 = (Some p, w')" using r by simp
  then show ?thesis by (rule encode_and_write_Some)
next
  case (retry w2)
  then have "ensureBmpForMedia ev (replace_hint uri) opt w2 = (Some p, w')" using r by simp
  then show ?thesis by (rule returned_path_nohint[OF no_hint_replace])
qed

lemma webp_alternative_nohint: "\<not> has_hint uri \<Longrightarrow> webp_alternative ev uri w1 = (False, w1)"
  by (simp add: webp_alternative_def)

lemma ensure_single_pass:
  assumes nh: "\<not> has_hint uri"
  shows "ensureBmpForMedia ev uri opt w = single_pass ev uri opt w"
proof (cases "toMediaPath ev uri w")
  case (Pair l w1)
  show ?thesis
  proof (cases l)
    case None
    then show ?thesis using Pair by (simp add: ensure_unresolved single_pass_def)
  next
    case (Some local)
    note tm = Pair[unfolded Some]
    show ?thesis
    proof (cases "readFile local w1")
      case None
      then show ?thesis using tm by (simp add: ensure_unreadable single_pass_def)
    next
      case (Some bs)
      show ?thesis
        by (simp add: ensure_unfold[OF tm Some] single_pass_def tm Some webp_alternative_nohint[OF nh])
    qed
  qed
qed








lemma replace_hint_http:
  assumes "startsWith uri ''http://'' \<or> startsWith uri ''https://''"
  shows "startsWith (replace_hint uri) ''http://'' \<or> startsWith (replace_hint uri) ''https://''"
proof -
  from assms obtain t where "uri = ''http://'' @ t \<or> uri = ''https://'' @ t"
    by (auto dest: startsWith_append)
  then show ?thesis by (auto simp: startsWith_def hint_re_def)
qed

lemma requested_toMediaPath_http:
  "startsWith uri ''http://'' \<or> startsWith uri ''https://'' \<Longrightarrow>
   requested (snd (toMediaPath ev uri w)) = requested w @ [uri]"
  by (simp add: toMediaPath_http Let_def split: option.splits)

lemma requested_single_pass:
  "requested (snd (single_pass ev u opt w)) = requested (snd (toMediaPath ev u w))"
  by (simp add: single_pass_def requested_encode_and_write split: prod.splits option.splits sum.splits)

lemma requested_webp_alternative:
  assumes "startsWith uri ''http://'' \<or> startsWith uri ''https://''" and "has_hint uri"
  shows "requested (snd (webp_alternative ev uri w1)) = requested w1 @ [replace_hint uri]"
proof -
  have "requested (snd (toMediaPath ev (replace_hint uri) w1)) = requested w1 @ [replace_hint uri]"
    using replace_hint_http[OF assms(1)] by (rule requested_toMediaPath_http)
  then show ?thesis using assms(2)
    by (auto simp: webp_alternative_def split: prod.splits option.splits)
qed

lemma matches_append:
  "length ps \<le> length xs \<Longrightarrow> matches ps (xs @ ys) = matches ps xs"
  by (induction ps xs rule: matches.induct) simp_all

lemma replace_hint_first:
  assumes sep: "sep = CHR '':'' \<or> sep = CHR ''=''"
    and no: "\<not> occurs (pre @ ''format'' @ [sep] @ ''web'')"
  shows "replace_hint (pre @ ''format'' @ [sep] @ ''webp'' @ post)
         = pre @ ''format:jpeg'' @ replace_hint post"
  using no
proof (induction pre)
  case Nil
  then show ?case using sep by (auto simp: hint_re_def)
next
  case (Cons c cs)
  have "\<not> matches hint_re ((c # cs @ ''format'' @ [sep] @ ''web'') @ (CHR ''p'' # post))"
    using Cons.prems by (subst matches_append) (simp_all add: hint_re_def)
  then have "\<not> matches hint_re (c # cs @ ''format'' @ [sep] @ ''webp'' @ post)" by simp
  then show ?case using Cons by simp
qed

lemma replace_hint_none: "\<not> occurs s \<Longrightarrow> replace_hint s = s"
  by (induction s rule: replace_hint.induct) auto












section \<open>The bitmap that is written\<close>






section \<open>Buffers filled block by block\<close>

lemma length_fill4: "length (fill4 v k d) = length d"
  by (simp add: fill4_def)

lemma nth_fill4: "j < length d \<Longrightarrow> fill4 v k d ! j = (if j div 4 = k then v j else d ! j)"
proof -
  assume j: "j < length d"
  have "j div 4 = k \<longleftrightarrow> j = 4 * k \<or> j = 4 * k + 1 \<or> j = 4 * k + 2 \<or> j = 4 * k + 3"
    by auto
  then show ?thesis using j by (auto simp: fill4_def nth_list_update)
qed

lemma length_fold_fill4: "length (fold (fill4 v) ks d) = length d"
  by (induction ks arbitrary: d) (simp_all add: length_fill4)

lemma nth_fold_fill4:
  "j < length d \<Longrightarrow>
   fold (fill4 v) [a..<b] d ! j = (if a \<le> j div 4 \<and> j div 4 < b then v j else d ! j)"
proof (induction b)
  case 0
  then show ?case by simp
next
  case (Suc b)
  note IH = Suc.IH [OF Suc.prems]
  show ?case
  proof (cases "a \<le> b")
    case True
    have "fold (fill4 v) [a..<Suc b] d ! j = fill4 v b (fold (fill4 v) [a..<b] d) ! j"
      using True by simp
    also have "\<dots> = (if j div 4 = b then v j else fold (fill4 v) [a..<b] d ! j)"
      using Suc.prems by (simp add: nth_fill4 length_fold_fill4)
    also have "\<dots> = (if a \<le> j div 4 \<and> j div 4 < Suc b then v j else d ! j)"
      using True by (simp add: IH less_Suc_eq)
    finally show ?thesis .
  next
    case False
    then have e: "[a..<Suc b] = []" by simp
    have n: "(a \<le> j div 4 \<and> j div 4 < Suc b) = False" using False by arith
    show ?thesis unfolding e n by simp
  qed
qed

lemma block_index:
  "c < 4 \<Longrightarrow> (4 * m + c) div 4 = (m::nat)" "c < 4 \<Longrightarrow> (4 * m + c) mod 4 = (c::nat)"
  by simp_all

section \<open>Compositing, byte by byte\<close>







section \<open>The blend of one channel\<close>







section \<open>The floored quotient of two integers\<close>

lemma rne_ge: "n div d \<le> rne n d"
  by (simp add: rne_def Let_def)

lemma rne_less:
  assumes d: "0 < d" and h: "2 * n < (2 * G - 1) * d"
  shows "rne n d < G"
proof -
  let ?q = "n div d" and ?r = "n mod d"
  have n: "n = ?q * d + ?r" by simp
  have G: "0 < G" using h by (cases G) auto
  show ?thesis
  proof (cases "2 * ?r < d")
    case True
    have "2 * ?q * d \<le> 2 * n" using n by (metis le_add1 mult.assoc mult_le_mono2)
    then have "2 * ?q * d < (2 * G - 1) * d" using h by linarith
    then have "2 * ?q < 2 * G - 1" by (rule mult_less_cancel2[THEN iffD1, THEN conjunct2])
    then have "?q < G" by linarith
    then show ?thesis using True by (simp add: rne_def Let_def)
  next
    case False
    have "(2 * ?q + 1) * d = 2 * (?q * d) + d" by (simp add: algebra_simps)
    also have "\<dots> \<le> 2 * (?q * d) + 2 * ?r" using False by simp
    also have "\<dots> = 2 * n" using n by (metis distrib_left)
    finally have "(2 * ?q + 1) * d < (2 * G - 1) * d" using h by linarith
    then have "2 * ?q + 1 < 2 * G - 1" by (rule mult_less_cancel2[THEN iffD1, THEN conjunct2])
    then have "?q + 1 < G" by linarith
    then show ?thesis by (simp add: rne_def Let_def)
  qed
qed

lemma rne_shift_floor:
  assumes b: "0 < b" and lo: "b * P \<le> a * 2 ^ s" and a: "a < 2 * P"
  shows "rne (a * 2 ^ s) b div 2 ^ s = a div b"
proof -
  let ?q = "a div b"
  let ?T = "(2::nat) ^ s"
  have T: "0 < ?T" by simp
  have eq: "(2 * P) * ?T = (2 * ?T) * P" by (simp add: mult_ac)
  have "a * ?T < (2 * P) * ?T" using a T by (rule mult_less_mono1)
  then have "a * ?T < (2 * ?T) * P" by (simp only: eq)
  with lo have "b * P < (2 * ?T) * P" by (rule le_less_trans)
  then have bs: "b < 2 * ?T" by (rule mult_less_cancel2[THEN iffD1, THEN conjunct2])
  have "?q * b * ?T \<le> a * ?T"
    by (rule mult_le_mono1) simp
  then have "(?q * ?T) * b \<le> a * ?T" by (simp add: mult_ac)
  then have "?q * ?T \<le> (a * ?T) div b" using b by (simp only: less_eq_div_iff_mult_less_eq)
  then have lower: "?q * ?T \<le> rne (a * ?T) b" using rne_ge[of "a * ?T" b] by linarith
  have "a < (?q + 1) * b"
    using dividend_less_div_times[OF b, of a] by (simp add: add_mult_distrib add.commute)
  then have "a + 1 \<le> (?q + 1) * b" by simp
  then have "(a + 1) * ?T \<le> ((?q + 1) * b) * ?T" by (rule mult_le_mono1)
  moreover have "(a + 1) * ?T = a * ?T + ?T" by (simp add: add_mult_distrib)
  moreover have "((?q + 1) * b) * ?T = ((?q + 1) * ?T) * b" by (simp only: mult_ac)
  ultimately have le: "a * ?T + ?T \<le> ((?q + 1) * ?T) * b" by (simp only:)
  define G where "G = (?q + 1) * ?T"
  define N where "N = a * ?T"
  have le': "N + ?T \<le> G * b" using le by (simp only: G_def N_def)
  have "?T \<le> G" by (simp add: G_def)
  moreover have "1 \<le> ?T" by (rule one_le_power) simp
  ultimately have "1 \<le> G" by (rule le_trans[rotated])
  then have "1 * b \<le> G * b" by (rule mult_le_mono1)
  then have Gb: "b \<le> G * b" by (simp only: mult_1)
  have "(2 * G - 1) * b = 2 * (G * b) - b" by (simp add: diff_mult_distrib)
  moreover have "2 * N + b < 2 * (G * b)" using le' bs by linarith
  ultimately have "2 * N < (2 * G - 1) * b" using Gb by linarith
  then have upper: "rne N b < G" using b by (rule rne_less[rotated])
  have "rne N b div ?T = ?q"
  proof (rule div_nat_eqI)
    show "?T * ?q \<le> rne N b" using lower by (simp only: N_def mult.commute)
    show "rne N b < ?T * Suc ?q" using upper by (simp only: G_def Suc_eq_plus1 mult.commute)
  qed
  then show ?thesis by (simp only: N_def)
qed

lemma exponent_cases:
  fixes a b :: nat
  assumes a0: "0 < a" and b0: "0 < b" and a53: "a < 2 ^ 53"
  defines "k \<equiv> int (floorlog 2 a) - int (floorlog 2 b)"
  defines "e \<equiv> (if below_pow2 a b k then k - 53 else k - 52)"
  shows "(e = 0 \<and> b = 1) \<or> (e < 0 \<and> b * 2 ^ 52 \<le> a * 2 ^ nat (- e))"
proof -
  define La where "La = floorlog 2 a"
  define Lb where "Lb = floorlog 2 b"
  have La: "2 ^ (La - 1) \<le> a" "a < 2 ^ La"
    using floorlog_bounds[of a 2] a0 by (simp_all add: La_def)
  have Lb: "2 ^ (Lb - 1) \<le> b" "b < 2 ^ Lb"
    using floorlog_bounds[of b 2] b0 by (simp_all add: Lb_def)
  have La1: "1 \<le> La" using a0 by (simp add: La_def floorlog_def)
  have Lb1: "1 \<le> Lb" using b0 by (simp add: Lb_def floorlog_def)
  have La53: "La \<le> 53" unfolding La_def using a53 by (intro floorlog_leI) simp_all
  have k: "k = int La - int Lb" by (simp add: k_def La_def Lb_def)
  show ?thesis
  proof (cases "below_pow2 a b k")
    case True
    then have e: "e = k - 53" by (simp add: e_def)
    define s where "s = nat (- e)"
    have s: "La - 1 + s = Lb + 52" and eneg: "e < 0"
      using e k La1 Lb1 La53 by (simp_all add: s_def) 
    have "b * 2 ^ 52 \<le> 2 ^ Lb * 2 ^ 52" using Lb(2) by (intro mult_le_mono1) simp
    also have "\<dots> = 2 ^ (La - 1) * 2 ^ s" by (simp only: power_add[symmetric] s)
    also have "\<dots> \<le> a * 2 ^ s" using La(1) by (rule mult_le_mono1)
    finally show ?thesis using eneg by (simp add: s_def)
  next
    case False
    then have e: "e = k - 52" by (simp add: e_def)
    show ?thesis
    proof (cases "e = 0")
      case True
      then have "La = 53" "Lb = 1" using e k La1 Lb1 La53 by simp_all
      then have "b = 1" using Lb(2) b0 by simp
      then show ?thesis using True by simp
    next
      case ne: False
      then have eneg: "e < 0" using e k La1 Lb1 La53 by simp
      define s where "s = nat (- e)"
      show ?thesis
      proof (cases "0 \<le> k")
        case True
        then have nb: "b * 2 ^ (La - Lb) \<le> a" and ex: "La - Lb + s = 52"
          using False e eneg k by (simp_all add: below_pow2_def s_def nat_diff_distrib)
        have "b * 2 ^ 52 = (b * 2 ^ (La - Lb)) * 2 ^ s"
          by (simp only: mult.assoc power_add[symmetric] ex)
        also have "\<dots> \<le> a * 2 ^ s" using nb by (rule mult_le_mono1)
        finally show ?thesis using eneg by (simp add: s_def)
      next
        case kneg: False
        then have nb: "b \<le> a * 2 ^ (Lb - La)" and ex: "Lb - La + 52 = s"
          using False e eneg k by (simp_all add: below_pow2_def s_def nat_diff_distrib)
        have "b * 2 ^ 52 \<le> (a * 2 ^ (Lb - La)) * 2 ^ 52" using nb by (rule mult_le_mono1)
        also have "\<dots> = a * 2 ^ s" by (simp only: mult.assoc power_add[symmetric] ex)
        finally show ?thesis using eneg by (simp add: s_def)
      qed
    qed
  qed
qed

lemma floor_div_exact:
  assumes b0: "0 < b" and a53: "a < 2 ^ 53"
  shows "floor_div a b = a div b"
proof (cases "a = 0")
  case True
  then show ?thesis by (simp add: floor_div_def round53_def dbl_floor_def)
next
  case False
  define k where "k = int (floorlog 2 a) - int (floorlog 2 b)"
  define e where "e = (if below_pow2 a b k then k - 53 else k - 52)"
  have r: "round53 a b = (if 0 \<le> e then (rne a (b * 2 ^ nat e), e) else (rne (a * 2 ^ nat (- e)) b, e))"
    using False by (simp add: round53_def Let_def k_def e_def)
  from exponent_cases[OF _ b0 a53] False
  consider "e = 0" "b = 1" | "e < 0" "b * 2 ^ 52 \<le> a * 2 ^ nat (- e)"
    unfolding k_def e_def by auto
  then show ?thesis
  proof cases
    case 1
    from r 1(1) have "round53 a b = (rne a b, 0)" by simp
    then have "floor_div a b = rne a b" by (simp add: floor_div_def dbl_floor_def)
    then show ?thesis using 1(2) by (simp add: rne_def)
  next
    case 2
    have "rne (a * 2 ^ nat (- e)) b div 2 ^ nat (- e) = a div b"
      using b0 2(2) by (rule rne_shift_floor) (use a53 in simp)
    then show ?thesis using 2(1) by (simp add: floor_div_def r dbl_floor_def)
  qed
qed


section \<open>The error of a rounded quotient and of a rounded product\<close>

lemma rne_err:
  assumes "0 < d"
  shows "2 * n \<le> 2 * d * rne n d + d" and "2 * d * rne n d \<le> 2 * n + d"
proof -
  let ?q = "n div d" and ?r = "n mod d"
  have n: "n = d * ?q + ?r" by simp
  have r: "?r < d" using assms by simp
  have a: "2 * n = 2 * d * ?q + 2 * ?r" using n by (metis distrib_left mult.assoc)
  have b: "2 * d * (?q + 1) = 2 * d * ?q + 2 * d" by (simp add: algebra_simps)
  consider "rne n d = ?q" "2 * ?r \<le> d" | "rne n d = ?q + 1" "d \<le> 2 * ?r"
    by (cases "2 * ?r < d"; cases "d < 2 * ?r"; cases "even ?q") (auto simp: rne_def Let_def)
  then have "2 * n \<le> 2 * d * rne n d + d \<and> 2 * d * rne n d \<le> 2 * n + d"
  proof cases
    case 1
    then show ?thesis using a by simp
  next
    case 2
    then show ?thesis using a b r by simp
  qed
  then show "2 * n \<le> 2 * d * rne n d + d" and "2 * d * rne n d \<le> 2 * n + d" by simp_all
qed

lemma rne_near:
  assumes d: "0 < d"
  shows "\<bar>rat_of_nat (rne n d) - rat_of_nat n / rat_of_nat d\<bar> \<le> 1 / 2"
proof -
  let ?m = "rat_of_nat (rne n d)" and ?D = "rat_of_nat d" and ?N = "rat_of_nat n"
  have D: "0 < ?D" using d by simp
  have "rat_of_nat (2 * n) \<le> rat_of_nat (2 * d * rne n d + d)"
    using rne_err(1)[OF d, of n] by (simp only: of_nat_le_iff)
  then have lo: "2 * ?N \<le> 2 * ?D * ?m + ?D" by simp
  have "rat_of_nat (2 * d * rne n d) \<le> rat_of_nat (2 * n + d)"
    using rne_err(2)[OF d, of n] by (simp only: of_nat_le_iff)
  then have hi: "2 * ?D * ?m \<le> 2 * ?N + ?D" by simp
  have "?N / ?D - 1 / 2 \<le> ?m" using lo D by (simp add: field_simps)
  moreover have "?m \<le> ?N / ?D + 1 / 2" using hi D by (simp add: field_simps)
  ultimately show ?thesis by linarith
qed


lemma rne_rel:
  assumes d: "0 < d" and big: "d * 2 ^ 52 \<le> n"
  shows "\<bar>rat_of_nat (rne n d) - rat_of_nat n / rat_of_nat d\<bar>
         \<le> (rat_of_nat n / rat_of_nat d) / 2 ^ 53"
proof -
  have D: "0 < rat_of_nat d" using d by simp
  have "rat_of_nat (d * 2 ^ 52) \<le> rat_of_nat n" using big by (simp only: of_nat_le_iff)
  then have "rat_of_nat d * 2 ^ 52 \<le> rat_of_nat n" by simp
  then have "2 ^ 52 \<le> rat_of_nat n / rat_of_nat d" using D by (simp add: field_simps)
  then have "1 / 2 \<le> (rat_of_nat n / rat_of_nat d) / 2 ^ 53" by simp
  with rne_near[OF d, of n] show ?thesis by linarith
qed

lemma floorlog_pos: "0 < n \<Longrightarrow> 0 < floorlog 2 n"
  by (simp add: floorlog_def)

lemma exponent_lower:
  fixes n d :: nat
  assumes n0: "0 < n" and d0: "0 < d"
  defines "k \<equiv> int (floorlog 2 n) - int (floorlog 2 d)"
  defines "e \<equiv> (if below_pow2 n d k then k - 53 else k - 52)"
  shows "2 powi (52 + e) \<le> rat_of_nat n / rat_of_nat d"
proof -
  define Ln where "Ln = floorlog 2 n"
  define Ld where "Ld = floorlog 2 d"
  have D: "0 < rat_of_nat d" using d0 by simp
  have Ln: "2 ^ (Ln - 1) \<le> n" using floorlog_bounds[of n 2] n0 by (simp add: Ln_def)
  have Ld: "d < 2 ^ Ld" using floorlog_bounds[of d 2] d0 by (simp add: Ld_def)
  have Ln1: "1 \<le> Ln" using floorlog_pos[OF n0] by (simp add: Ln_def)
  have k: "k = int Ln - int Ld" by (simp add: k_def Ln_def Ld_def)
  show ?thesis
  proof (cases "below_pow2 n d k")
    case True
    then have e: "52 + e = int (Ln - 1) - int Ld" using k Ln1 by (simp add: e_def)
    have "rat_of_nat d \<le> 2 ^ Ld" using Ld by (metis less_imp_le of_nat_le_iff of_nat_numeral of_nat_power)
    moreover have "(2::rat) ^ (Ln - 1) \<le> rat_of_nat n"
      using Ln by (metis of_nat_le_iff of_nat_numeral of_nat_power)
    ultimately have "(2::rat) ^ (Ln - 1) / 2 ^ Ld \<le> rat_of_nat n / rat_of_nat d"
      using D by (intro frac_le) simp_all
    moreover have "(2::rat) powi (52 + e) = 2 ^ (Ln - 1) / 2 ^ Ld"
      unfolding e by (simp add: power_int_diff)
    ultimately show ?thesis by simp
  next
    case False
    then have e: "52 + e = k" by (simp add: e_def)
    show ?thesis
    proof (cases "0 \<le> k")
      case True
      then have "d * 2 ^ nat k \<le> n" using False by (simp add: below_pow2_def)
      then have "rat_of_nat (d * 2 ^ nat k) \<le> rat_of_nat n" by (simp only: of_nat_le_iff)
      then have "rat_of_nat d * 2 ^ nat k \<le> rat_of_nat n" by simp
      then have "2 ^ nat k \<le> rat_of_nat n / rat_of_nat d" using D by (simp add: field_simps)
      then show ?thesis unfolding e using True by (simp add: power_int_nonneg_exp)
    next
      case kneg: False
      then have "d \<le> n * 2 ^ nat (- k)" using False by (simp add: below_pow2_def)
      then have "rat_of_nat d \<le> rat_of_nat (n * 2 ^ nat (- k))" by (simp only: of_nat_le_iff)
      then have "rat_of_nat d \<le> rat_of_nat n * 2 ^ nat (- k)" by simp
      then have "1 / 2 ^ nat (- k) \<le> rat_of_nat n / rat_of_nat d" using D by (simp add: field_simps)
      moreover have "(2::rat) powi k = 1 / 2 ^ nat (- k)"
      proof -
        have "k = - int (nat (- k))" using kneg by simp
        then have "(2::rat) powi k = 2 powi (- int (nat (- k)))" by simp
        also have "\<dots> = 1 / 2 ^ nat (- k)" by (simp only: power_int_minus_divide power_int_of_nat)
        finally show ?thesis .
      qed
      ultimately show ?thesis unfolding e by simp
    qed
  qed
qed

lemma scaled_error_up:
  fixes m q P :: rat
  assumes P: "0 < P" and A: "\<bar>m - q / P\<bar> \<le> (q / P) / 2 ^ 53"
  shows "\<bar>m * P - q\<bar> \<le> q / 2 ^ 53"
proof -
  have "m * P - q = P * (m - q / P)" using P by (simp add: field_simps)
  then have "\<bar>m * P - q\<bar> = P * \<bar>m - q / P\<bar>" using P by (simp add: abs_mult)
  also have "\<dots> \<le> P * ((q / P) / 2 ^ 53)" using A P by (intro mult_left_mono) simp_all
  also have "\<dots> = q / 2 ^ 53" using P by simp
  finally show ?thesis .
qed

lemma scaled_error_down:
  fixes m q P :: rat
  assumes P: "0 < P" and A: "\<bar>m - q * P\<bar> \<le> (q * P) / 2 ^ 53"
  shows "\<bar>m / P - q\<bar> \<le> q / 2 ^ 53"
proof -
  have "m / P - q = (m - q * P) / P" using P by (simp add: field_simps)
  then have "\<bar>m / P - q\<bar> = \<bar>m - q * P\<bar> / P" using P by (simp add: abs_divide)
  also have "\<dots> \<le> ((q * P) / 2 ^ 53) / P" using A P by (intro divide_right_mono) simp_all
  also have "\<dots> = q / 2 ^ 53" using P by simp
  finally show ?thesis .
qed

lemma round53_rel:
  assumes d0: "0 < d"
  shows "\<bar>dval (round53 n d) - rat_of_nat n / rat_of_nat d\<bar>
         \<le> (rat_of_nat n / rat_of_nat d) / 2 ^ 53"
proof (cases "n = 0")
  case True
  then show ?thesis by (simp add: round53_def dval_def)
next
  case False
  then have n0: "0 < n" by simp
  define k where "k = int (floorlog 2 n) - int (floorlog 2 d)"
  define e where "e = (if below_pow2 n d k then k - 53 else k - 52)"
  define q where "q = rat_of_nat n / rat_of_nat d"
  have D: "0 < rat_of_nat d" using d0 by simp
  have r: "round53 n d = (if 0 \<le> e then (rne n (d * 2 ^ nat e), e) else (rne (n * 2 ^ nat (- e)) d, e))"
    using False by (simp add: round53_def Let_def k_def e_def)
  have E: "2 powi (52 + e) \<le> q"
    using exponent_lower[OF n0 d0] unfolding k_def e_def q_def by simp
  show ?thesis
  proof (cases "0 \<le> e")
    case True
    define s where "s = nat e"
    define P where "P = (2::rat) ^ s"
    have P: "0 < P" by (simp add: P_def)
    have es: "e = int s" using True by (simp add: s_def)
    have "(2::rat) powi (52 + e) = 2 ^ 52 * P"
      unfolding es P_def by (simp add: power_int_add)
    then have "2 ^ 52 * P \<le> q" using E by simp
    then have "rat_of_nat d * 2 ^ s * 2 ^ 52 \<le> rat_of_nat n"
      using D by (simp add: q_def P_def field_simps)
    then have "rat_of_nat (d * 2 ^ s * 2 ^ 52) \<le> rat_of_nat n" by simp
    then have big: "d * 2 ^ s * 2 ^ 52 \<le> n" by (simp only: of_nat_le_iff)
    have eq: "rat_of_nat n / rat_of_nat (d * 2 ^ s) = q / P"
      by (simp add: q_def P_def)
    have "\<bar>rat_of_nat (rne n (d * 2 ^ s)) - rat_of_nat n / rat_of_nat (d * 2 ^ s)\<bar>
          \<le> (rat_of_nat n / rat_of_nat (d * 2 ^ s)) / 2 ^ 53"
      using d0 big by (intro rne_rel) simp_all
    then have "\<bar>rat_of_nat (rne n (d * 2 ^ s)) - q / P\<bar> \<le> (q / P) / 2 ^ 53"
      unfolding eq .
    then have "\<bar>rat_of_nat (rne n (d * 2 ^ s)) * P - q\<bar> \<le> q / 2 ^ 53"
      by (rule scaled_error_up[OF P])
    moreover have "dval (round53 n d) = rat_of_nat (rne n (d * 2 ^ s)) * P"
      using True by (simp add: r dval_def s_def P_def)
    ultimately show ?thesis unfolding q_def by (simp only:)
  next
    case False
    define s where "s = nat (- e)"
    define P where "P = (2::rat) ^ s"
    have P: "0 < P" by (simp add: P_def)
    have es: "e = - int s" using False by (simp add: s_def)
    have "(2::rat) powi (52 + e) = 2 ^ 52 / P"
      unfolding es P_def by (simp add: power_int_diff)
    then have "2 ^ 52 / P \<le> q" using E by simp
    then have "rat_of_nat d * 2 ^ 52 \<le> rat_of_nat n * 2 ^ s"
      using D P by (simp add: q_def P_def field_simps)
    then have "rat_of_nat (d * 2 ^ 52) \<le> rat_of_nat (n * 2 ^ s)" by simp
    then have big: "d * 2 ^ 52 \<le> n * 2 ^ s" by (simp only: of_nat_le_iff)
    have eq: "rat_of_nat (n * 2 ^ s) / rat_of_nat d = q * P"
      by (simp add: q_def P_def)
    have "\<bar>rat_of_nat (rne (n * 2 ^ s) d) - rat_of_nat (n * 2 ^ s) / rat_of_nat d\<bar>
          \<le> (rat_of_nat (n * 2 ^ s) / rat_of_nat d) / 2 ^ 53"
      using d0 big by (rule rne_rel)
    then have "\<bar>rat_of_nat (rne (n * 2 ^ s) d) - q * P\<bar> \<le> (q * P) / 2 ^ 53"
      unfolding eq .
    then have "\<bar>rat_of_nat (rne (n * 2 ^ s) d) / P - q\<bar> \<le> q / 2 ^ 53"
      by (rule scaled_error_down[OF P])
    moreover have "dval (round53 n d) = rat_of_nat (rne (n * 2 ^ s) d) / P"
      using False by (simp add: r dval_def s_def P_def)
    ultimately show ?thesis unfolding q_def by (simp only:)
  qed
qed

lemma dbl_floor_dval: "int (dbl_floor x) = \<lfloor>dval x\<rfloor>"
proof (cases "0 \<le> snd x")
  case True
  have "dval x = rat_of_nat (fst x * 2 ^ nat (snd x))" using True by (simp add: dval_def)
  then have "\<lfloor>dval x\<rfloor> = int (fst x * 2 ^ nat (snd x))" by (simp only: floor_of_nat)
  then show ?thesis using True by (simp add: dbl_floor_def)
next
  case False
  have "dval x = rat_of_nat (fst x) / rat_of_nat (2 ^ nat (- snd x))"
    using False by (simp add: dval_def)
  then have "\<lfloor>dval x\<rfloor> = int (fst x div 2 ^ nat (- snd x))"
    by (simp only: floor_divide_of_nat_eq)
  then show ?thesis using False by (simp add: dbl_floor_def)
qed

lemma dbl_mul_nat_rel:
  "\<bar>dval (dbl_mul_nat w x) - rat_of_nat w * dval x\<bar> \<le> (rat_of_nat w * dval x) / 2 ^ 53"
proof (cases "0 \<le> snd x")
  case True
  have eq: "rat_of_nat (w * fst x * 2 ^ nat (snd x)) / rat_of_nat 1 = rat_of_nat w * dval x"
    using True by (simp add: dval_def)
  have m: "dbl_mul_nat w x = round53 (w * fst x * 2 ^ nat (snd x)) 1"
    using True by (simp add: dbl_mul_nat_def)
  show ?thesis using round53_rel[of 1 "w * fst x * 2 ^ nat (snd x)"] unfolding eq m by simp
next
  case False
  have eq: "rat_of_nat (w * fst x) / rat_of_nat (2 ^ nat (- snd x)) = rat_of_nat w * dval x"
    using False by (simp add: dval_def)
  have m: "dbl_mul_nat w x = round53 (w * fst x) (2 ^ nat (- snd x))"
    using False by (simp add: dbl_mul_nat_def)
  show ?thesis using round53_rel[of "2 ^ nat (- snd x)" "w * fst x"] unfolding eq m by simp
qed

lemma js_min_value:
  "\<exists>s. js_min (Fin a) (Fin b) = Fin s \<and> dval s = min (dval a) (dval b)"
  by (cases "dval a \<le> dval b") (auto simp: dbl_le_def min_def)

lemma two_roundings_upper:
  fixes y N :: rat
  assumes "0 \<le> N" and "N \<le> 2 ^ 51" and "y \<le> N * (1 + 1 / 2 ^ 53) * (1 + 1 / 2 ^ 53)"
  shows "y < N + 1"
proof -
  define c :: rat where "c = 2 / 2 ^ 53 + 1 / 2 ^ 106"
  have c: "0 \<le> c" "2 ^ 51 * c < 1" by (simp_all add: c_def)
  have "N * (1 + 1 / 2 ^ 53) * (1 + 1 / 2 ^ 53) = N + N * c"
    by (simp add: c_def field_simps)
  moreover have "N * c \<le> 2 ^ 51 * c" using assms(2) c(1) by (rule mult_right_mono)
  ultimately show ?thesis using assms(3) c(2) by linarith
qed

lemma two_roundings_lower:
  fixes y N :: rat
  assumes "0 \<le> N" and "N \<le> 2 ^ 51" and "N * (1 - 1 / 2 ^ 53) * (1 - 1 / 2 ^ 53) \<le> y"
  shows "N - 1 < y"
proof -
  define c :: rat where "c = 2 / 2 ^ 53 - 1 / 2 ^ 106"
  have c: "0 \<le> c" "2 ^ 51 * c < 1" by (simp_all add: c_def)
  have "N * (1 - 1 / 2 ^ 53) * (1 - 1 / 2 ^ 53) = N - N * c"
    by (simp add: c_def field_simps)
  moreover have "N * c \<le> 2 ^ 51 * c" using assms(2) c(1) by (rule mult_right_mono)
  ultimately show ?thesis using assms(3) c(2) by linarith
qed

lemma floor_two_roundings:
  fixes d M L :: nat and sv y :: rat
  assumes L: "0 < L" and N: "d * M \<le> 2 ^ 51"
    and s_lo: "(rat_of_nat M / rat_of_nat L) * (1 - 1 / 2 ^ 53) \<le> sv"
    and s_hi: "sv \<le> (rat_of_nat M / rat_of_nat L) * (1 + 1 / 2 ^ 53)"
    and y: "\<bar>y - rat_of_nat d * sv\<bar> \<le> (rat_of_nat d * sv) / 2 ^ 53"
  shows "\<lfloor>y\<rfloor> \<le> int (d * M div L)" and "int (d * M div L) \<le> \<lfloor>y\<rfloor> + 1"
proof -
  define u :: rat where "u = 1 / 2 ^ 53"
  define x where "x = rat_of_nat d * sv"
  define Nr where "Nr = rat_of_nat (d * M)"
  define Lr where "Lr = rat_of_nat L"
  define E where "E = d * M div L"
  have u: "0 \<le> 1 - u" "0 \<le> 1 + u" by (simp_all add: u_def)
  have Lr: "0 < Lr" using L by (simp add: Lr_def)
  have Nr: "0 \<le> Nr" "Nr \<le> 2 ^ 51"
  proof -
    show "0 \<le> Nr" by (simp add: Nr_def)
    have "rat_of_nat (d * M) \<le> rat_of_nat (2 ^ 51)" using N by (simp only: of_nat_le_iff)
    then show "Nr \<le> 2 ^ 51" by (simp add: Nr_def)
  qed
  have T: "rat_of_nat d * (rat_of_nat M / Lr) = Nr / Lr" by (simp add: Nr_def)
  have "rat_of_nat d * ((rat_of_nat M / Lr) * (1 - u)) \<le> rat_of_nat d * sv"
    using s_lo unfolding u_def Lr_def by (intro mult_left_mono) simp_all
  then have x_lo: "(Nr / Lr) * (1 - u) \<le> x"
    unfolding x_def by (simp only: mult.assoc[symmetric] T)
  have "rat_of_nat d * sv \<le> rat_of_nat d * ((rat_of_nat M / Lr) * (1 + u))"
    using s_hi unfolding u_def Lr_def by (intro mult_left_mono) simp_all
  then have x_hi: "x \<le> (Nr / Lr) * (1 + u)"
    unfolding x_def by (simp only: mult.assoc[symmetric] T)
  have y': "\<bar>y - x\<bar> \<le> x * u" using y by (simp add: x_def u_def)
  have "y \<le> x + x * u" using y' by linarith
  also have "\<dots> = x * (1 + u)" by (simp add: algebra_simps)
  also have "\<dots> \<le> (Nr / Lr) * (1 + u) * (1 + u)" using x_hi u(2) by (rule mult_right_mono)
  finally have "y * Lr \<le> (Nr / Lr) * (1 + u) * (1 + u) * Lr"
    using Lr by (intro mult_right_mono) simp_all
  also have "\<dots> = Nr * (1 + u) * (1 + u)" using Lr by simp
  finally have "y * Lr < Nr + 1"
    unfolding u_def by (intro two_roundings_upper[OF Nr])
  moreover have "Nr + 1 \<le> Lr * (rat_of_int (int E) + 1)"
  proof -
    have "d * M = L * E + d * M mod L" by (simp add: E_def)
    moreover have "d * M mod L < L" using L by simp
    ultimately have "d * M + 1 \<le> L * (E + 1)" by (simp add: algebra_simps)
    then have "rat_of_nat (d * M + 1) \<le> rat_of_nat (L * (E + 1))" by (simp only: of_nat_le_iff)
    then show ?thesis by (simp add: Nr_def Lr_def algebra_simps)
  qed
  ultimately have "y * Lr < (rat_of_int (int E) + 1) * Lr" by (simp add: mult.commute)
  then have "y < rat_of_int (int E) + 1" using Lr by (simp only: mult_less_cancel_right_pos)
  then have "y < rat_of_int (int E + 1)" by simp
  then have "\<lfloor>y\<rfloor> < int E + 1" by (simp only: floor_less_iff)
  then show "\<lfloor>y\<rfloor> \<le> int (d * M div L)" by (simp add: E_def)
  have "x - x * u \<le> y" using y' by linarith
  moreover have "x - x * u = x * (1 - u)" by (simp add: algebra_simps)
  moreover have "(Nr / Lr) * (1 - u) * (1 - u) \<le> x * (1 - u)" using x_lo u(1) by (rule mult_right_mono)
  ultimately have "(Nr / Lr) * (1 - u) * (1 - u) \<le> y" by linarith
  then have "(Nr / Lr) * (1 - u) * (1 - u) * Lr \<le> y * Lr"
    using Lr by (intro mult_right_mono) simp_all
  moreover have "(Nr / Lr) * (1 - u) * (1 - u) * Lr = Nr * (1 - u) * (1 - u)" using Lr by simp
  ultimately have "Nr * (1 - u) * (1 - u) \<le> y * Lr" by simp
  then have lo: "Nr - 1 < y * Lr"
    unfolding u_def by (intro two_roundings_lower[OF Nr])
  have "Lr * (rat_of_int (int E) - 1) \<le> Nr - 1"
  proof -
    have "L * E \<le> d * M" by (simp add: E_def)
    then have "rat_of_nat (L * E) \<le> rat_of_nat (d * M)" by (simp only: of_nat_le_iff)
    then have "Lr * rat_of_int (int E) \<le> Nr" by (simp add: Nr_def Lr_def)
    moreover have "1 \<le> Lr" using L by (simp add: Lr_def)
    ultimately show ?thesis by (simp add: algebra_simps)
  qed
  with lo have "(rat_of_int (int E) - 1) * Lr < y * Lr" by (simp add: mult.commute)
  then have "rat_of_int (int E) - 1 < y" using Lr by (simp only: mult_less_cancel_right_pos)
  then have "rat_of_int (int E - 1) \<le> y" by simp
  then have "int E - 1 \<le> \<lfloor>y\<rfloor>" by (simp only: le_floor_iff)
  then show "int (d * M div L) \<le> \<lfloor>y\<rfloor> + 1" by (simp add: E_def)
qed

lemma round53_between:
  assumes "0 < d"
  shows "(rat_of_nat n / rat_of_nat d) * (1 - 1 / 2 ^ 53) \<le> dval (round53 n d)"
    and "dval (round53 n d) \<le> (rat_of_nat n / rat_of_nat d) * (1 + 1 / 2 ^ 53)"
proof -
  let ?q = "rat_of_nat n / rat_of_nat d"
  have "\<bar>dval (round53 n d) - ?q\<bar> \<le> ?q / 2 ^ 53" by (rule round53_rel[OF assms])
  then have "?q - ?q / 2 ^ 53 \<le> dval (round53 n d) \<and> dval (round53 n d) \<le> ?q + ?q / 2 ^ 53"
    by linarith
  moreover have "?q - ?q / 2 ^ 53 = ?q * (1 - 1 / 2 ^ 53)" by (simp add: algebra_simps)
  moreover have "?q + ?q / 2 ^ 53 = ?q * (1 + 1 / 2 ^ 53)" by (simp add: algebra_simps)
  ultimately show "?q * (1 - 1 / 2 ^ 53) \<le> dval (round53 n d)"
    and "dval (round53 n d) \<le> ?q * (1 + 1 / 2 ^ 53)" by simp_all
qed

lemma scale_bounds:
  fixes w h M :: nat
  assumes w: "0 < w" and h: "0 < h"
  defines "sv \<equiv> min (dval (round53 M w)) (dval (round53 M h))"
  shows "(rat_of_nat M / rat_of_nat (max w h)) * (1 - 1 / 2 ^ 53) \<le> sv"
    and "sv \<le> (rat_of_nat M / rat_of_nat (max w h)) * (1 + 1 / 2 ^ 53)"
proof -
  let ?Q = "rat_of_nat M / rat_of_nat (max w h)"
  have u: "(0::rat) \<le> 1 - 1 / 2 ^ 53" by simp
  have qw: "?Q \<le> rat_of_nat M / rat_of_nat w" using w by (intro divide_left_mono) simp_all
  have qh: "?Q \<le> rat_of_nat M / rat_of_nat h" using h by (intro divide_left_mono) simp_all
  have "?Q * (1 - 1 / 2 ^ 53) \<le> (rat_of_nat M / rat_of_nat w) * (1 - 1 / 2 ^ 53)"
    using qw u by (rule mult_right_mono)
  then have a: "?Q * (1 - 1 / 2 ^ 53) \<le> dval (round53 M w)"
    using round53_between(1)[OF w, of M] by linarith
  have "?Q * (1 - 1 / 2 ^ 53) \<le> (rat_of_nat M / rat_of_nat h) * (1 - 1 / 2 ^ 53)"
    using qh u by (rule mult_right_mono)
  then have b: "?Q * (1 - 1 / 2 ^ 53) \<le> dval (round53 M h)"
    using round53_between(1)[OF h, of M] by linarith
  show "?Q * (1 - 1 / 2 ^ 53) \<le> sv" using a b by (simp add: sv_def)
  show "sv \<le> ?Q * (1 + 1 / 2 ^ 53)"
  proof (cases "h \<le> w")
    case True
    then have "max w h = w" by simp
    then show ?thesis using round53_between(2)[OF w, of M] by (simp add: sv_def min_le_iff_disj)
  next
    case False
    then have "max w h = h" by simp
    then show ?thesis using round53_between(2)[OF h, of M] by (simp add: sv_def min_le_iff_disj)
  qed
qed

lemma scaled_dim_bounds:
  fixes w h M d :: nat
  assumes w: "0 < w" and h: "0 < h" and d: "d \<le> max w h" and N: "max w h * M \<le> 2 ^ 51"
    and s: "dval s = min (dval (round53 M w)) (dval (round53 M h))"
  shows "dbl_floor (dbl_mul_nat d s) \<le> d * M div max w h"
    and "d * M div max w h \<le> dbl_floor (dbl_mul_nat d s) + 1"
proof -
  have L: "0 < max w h" using w by simp
  have "d * M \<le> max w h * M" using d by (rule mult_le_mono1)
  then have N': "d * M \<le> 2 ^ 51" using N by (rule le_trans)
  note B = floor_two_roundings[OF L N' scale_bounds[OF w h, of M, folded s] dbl_mul_nat_rel[of d s]]
  from B(1) have "int (dbl_floor (dbl_mul_nat d s)) \<le> int (d * M div max w h)"
    by (simp only: dbl_floor_dval)
  then show "dbl_floor (dbl_mul_nat d s) \<le> d * M div max w h" by (simp only: of_nat_le_iff)
  from B(2) have "int (d * M div max w h) \<le> int (dbl_floor (dbl_mul_nat d s)) + 1"
    by (simp only: dbl_floor_dval)
  then show "d * M div max w h \<le> dbl_floor (dbl_mul_nat d s) + 1" by linarith
qed

lemma new_dims_bounds:
  assumes w: "0 < width" and h: "0 < height" and N: "max width height * maxSize \<le> 2 ^ 51"
  shows "\<exists>nw nh. new_dims maxSize width height = Some (nw, nh) \<and>
           nw \<le> exact_dim maxSize width height width \<and>
           exact_dim maxSize width height width \<le> nw + 1 \<and>
           nh \<le> exact_dim maxSize width height height \<and>
           exact_dim maxSize width height height \<le> nh + 1"
proof -
  obtain s where s: "js_min (Fin (round53 maxSize width)) (Fin (round53 maxSize height)) = Fin s"
      "dval s = min (dval (round53 maxSize width)) (dval (round53 maxSize height))"
    using js_min_value by blast
  let ?fw = "dbl_floor (dbl_mul_nat width s)" and ?fh = "dbl_floor (dbl_mul_nat height s)"
  have nd: "new_dims maxSize width height = Some (max 1 ?fw, max 1 ?fh)"
    using w h by (simp add: new_dims_def js_div_def s(1) del: js_min.simps)
  note W = scaled_dim_bounds[OF w h _ N s(2), of width]
  note H = scaled_dim_bounds[OF w h _ N s(2), of height]
  have "max 1 ?fw \<le> exact_dim maxSize width height width"
    using W(1) by (simp add: exact_dim_def)
  moreover have "exact_dim maxSize width height width \<le> max 1 ?fw + 1"
    using W(2) by (simp add: exact_dim_def)
  moreover have "max 1 ?fh \<le> exact_dim maxSize width height height"
    using H(1) by (simp add: exact_dim_def)
  moreover have "exact_dim maxSize width height height \<le> max 1 ?fh + 1"
    using H(2) by (simp add: exact_dim_def)
  ultimately show ?thesis using nd by blast
qed

section \<open>Resampling, byte by byte\<close>

lemma resized_at_block:
  assumes "x < dstW" and "c < 4"
  shows "resized_at src srcW srcH dstW dstH (4 * (y * dstW + x) + c)
         = rd src ((floor_div (y * srcH) dstH * srcW + floor_div (x * srcW) dstW) * 4 + c)"
proof -
  have "(4 * (y * dstW + x) + c) div 4 = y * dstW + x" "(4 * (y * dstW + x) + c) mod 4 = c"
    using assms(2) block_index[of c "y * dstW + x"] by blast+
  moreover have "(y * dstW + x) div dstW = y" "(y * dstW + x) mod dstW = x"
    using assms(1) by simp_all
  ultimately show ?thesis by (simp add: resized_at_def)
qed

lemma resize_pixel_fill4:
  assumes "x < dstW"
  shows "resize_pixel src srcW srcH dstW dstH y x
     = fill4 (resized_at src srcW srcH dstW dstH) (y * dstW + x)"
proof (rule ext)
  fix d
  let ?s = "(floor_div (y * srcH) dstH * srcW + floor_div (x * srcW) dstW) * 4"
  let ?v = "resized_at src srcW srcH dstW dstH"
  have b0: "?v (4 * (y * dstW + x)) = rd src ?s"
    using resized_at_block[OF assms, of 0] by simp
  have b1: "?v (4 * (y * dstW + x) + 1) = rd src (?s + 1)"
    using resized_at_block[OF assms, of 1] by simp
  have b2: "?v (4 * (y * dstW + x) + 2) = rd src (?s + 2)"
    using resized_at_block[OF assms, of 2] by simp
  have b3: "?v (4 * (y * dstW + x) + 3) = rd src (?s + 3)"
    using resized_at_block[OF assms, of 3] by simp
  have "fill4 ?v (y * dstW + x) d
        = d[4 * (y * dstW + x) := rd src ?s, 4 * (y * dstW + x) + 1 := rd src (?s + 1),
            4 * (y * dstW + x) + 2 := rd src (?s + 2), 4 * (y * dstW + x) + 3 := rd src (?s + 3)]"
    unfolding fill4_def b0 b1 b2 b3 ..
  also have "\<dots> = resize_pixel src srcW srcH dstW dstH y x d"
    unfolding resize_pixel_def Let_def mult.commute[of 4 "y * dstW + x"] ..
  finally show "resize_pixel src srcW srcH dstW dstH y x d = fill4 ?v (y * dstW + x) d" ..
qed

lemma resize_row_fill4:
  "fold (resize_pixel src srcW srcH dstW dstH y) [0..<dstW] d
     = fold (fill4 (resized_at src srcW srcH dstW dstH)) [y * dstW..<y * dstW + dstW] d"
proof -
  have "fold (resize_pixel src srcW srcH dstW dstH y) [0..<dstW] d
        = fold (\<lambda>x. fill4 (resized_at src srcW srcH dstW dstH) (y * dstW + x)) [0..<dstW] d"
    by (rule fold_cong) (auto simp: resize_pixel_fill4)
  also have "\<dots> = fold (fill4 (resized_at src srcW srcH dstW dstH))
                      (map (\<lambda>x. x + y * dstW) [0..<dstW]) d"
    by (simp add: fold_map comp_def add.commute)
  also have "map (\<lambda>x. x + y * dstW) [0..<dstW] = [y * dstW..<y * dstW + dstW]"
    by (simp add: map_add_upt add.commute)
  finally show ?thesis .
qed

lemma length_resize_rows:
  "length (fold (\<lambda>y dst. fold (resize_pixel src srcW srcH dstW dstH y) [0..<dstW] dst) [0..<n] d)
     = length d"
  by (induction n) (simp_all add: resize_row_fill4 length_fold_fill4)

lemma resize_rows_nth:
  "j < length d \<Longrightarrow>
   fold (\<lambda>y dst. fold (resize_pixel src srcW srcH dstW dstH y) [0..<dstW] dst) [0..<n] d ! j
     = (if j div 4 < n * dstW then resized_at src srcW srcH dstW dstH j else d ! j)"
proof (induction n)
  case 0
  then show ?case by simp
next
  case (Suc n)
  let ?f = "\<lambda>y dst. fold (resize_pixel src srcW srcH dstW dstH y) [0..<dstW] dst"
  let ?v = "resized_at src srcW srcH dstW dstH"
  note IH = Suc.IH [OF Suc.prems]
  have "fold ?f [0..<Suc n] d ! j = fold (fill4 ?v) [n * dstW..<n * dstW + dstW] (fold ?f [0..<n] d) ! j"
    by (simp add: resize_row_fill4)
  also have "\<dots> = (if n * dstW \<le> j div 4 \<and> j div 4 < n * dstW + dstW then ?v j
                    else fold ?f [0..<n] d ! j)"
    using Suc.prems by (simp add: nth_fold_fill4 length_resize_rows)
  also have "\<dots> = (if j div 4 < Suc n * dstW then ?v j else d ! j)"
    by (auto simp: IH)
  finally show ?case .
qed

lemma length_resize: "length (resizeNearestRGBA src srcW srcH dstW dstH) = dstW * dstH * 4"
  by (simp add: resizeNearestRGBA_def length_resize_rows)

lemma resize_nth:
  "j < dstW * dstH * 4 \<Longrightarrow>
   resizeNearestRGBA src srcW srcH dstW dstH ! j = resized_at src srcW srcH dstW dstH j"
proof -
  assume j: "j < dstW * dstH * 4"
  then have "j div 4 < dstH * dstW" by (simp add: less_mult_imp_div_less mult.commute)
  then show ?thesis using j by (simp add: resizeNearestRGBA_def resize_rows_nth)
qed


section \<open>A decoder that throws in the PNG branch\<close>

text \<open>
  C1. A decode failure is never surfaced: a reference that resolves to readable bytes
  still yields a path from a fallback tier when decoding fails. The code at a readable
  local file that holds the PNG signature and that the decoder rejects: resolution and
  read succeed, every path is writable, and the result is the no-attachment value.
\<close>

theorem png_decode_failure_gives_null:
  "fst (toMediaPath failing_decoders ''/img.png'' (local_files [(''/img.png'', sig_png)]))
     = Some ''file:///img.png'' \<and>
   readFile ''file:///img.png'' (local_files [(''/img.png'', sig_png)]) = Some sig_png \<and>
   mime_of sig_png = PNG \<and>
   UPNG_decode failing_decoders sig_png = Inl DecodeError \<and>
   fst (ensureBmpForMedia failing_decoders ''/img.png'' None (local_files [(''/img.png'', sig_png)]))
     = None"
proof -
  let ?w = "local_files [(''/img.png'', sig_png)]"
  have tm: "toMediaPath failing_decoders ''/img.png'' ?w = (Some ''file:///img.png'', ?w)"
    by (simp add: toMediaPath_local startsWith_def strip_file_def)
  have rd: "readFile ''file:///img.png'' ?w = Some sig_png"
    by (simp add: readFile_def strip_file_def startsWith_def local_files_def)
  have m: "mime_of sig_png = PNG" by (simp add: mime_of_table sig_defs)
  have d: "decode_branch failing_decoders PNG sig_png = Inl DecodeError"
    by (simp add: decode_branch_def decode_png_def failing_decoders_def)
  have "fst (ensureBmpForMedia failing_decoders ''/img.png'' None ?w) = None"
    by (simp add: ensure_unfold[OF tm rd] m d)
  then show ?thesis using tm rd m by (simp add: failing_decoders_def)
qed


section \<open>The WebP branch\<close>

lemma mime_of_webp_header: "mime_of webp_header = WEBP"
  by (simp add: mime_of_table sig_defs webp_header_def)







section \<open>Compositing after a PNG decode\<close>




lemma mime_of_transparent_png: "mime_of transparent_png = PNG"
  by (simp add: transparent_png_def mime_of_table sig_defs)





section \<open>The size check and the resampler\<close>

lemma size_check_within:
  "\<not> maxSize < max width height \<Longrightarrow>
   size_check maxSize (width, height, rgba) = Inr (width, height, rgba)"
  by (auto simp: size_check_def)

lemma size_check_over:
  "maxSize < max width height \<Longrightarrow> new_dims maxSize width height = Some (nw, nh) \<Longrightarrow>
   size_check maxSize (width, height, rgba)
     = Inr (nw, nh, resizeNearestRGBA rgba width height nw nh)"
  by (auto simp: size_check_def)

lemma floor_max1_pos: "floor_max1 v = Some n \<Longrightarrow> Suc 0 \<le> n"
  by (cases v) auto

lemma new_dims_pos: "new_dims maxSize width height = Some (nw, nh) \<Longrightarrow> 1 \<le> nw \<and> 1 \<le> nh"
  by (auto simp: new_dims_def Let_def split: option.splits dest: floor_max1_pos)

lemma source_pixel_inside:
  fixes x srcW dstW :: nat
  assumes "x < dstW"
  shows "x * srcW div dstW < srcW \<or> srcW = 0"
proof (cases "srcW = 0")
  case True then show ?thesis by simp
next
  case False
  have "x * srcW < dstW * srcW" using assms False by simp
  then have "x * srcW div dstW < srcW" by (simp add: less_mult_imp_div_less mult.commute)
  then show ?thesis by simp
qed

lemma resized_pixel:
  assumes x: "x < dstW" and y: "y < dstH" and c: "c < 4"
    and W: "srcW * dstW < 2 ^ 53" and H: "srcH * dstH < 2 ^ 53"
  shows "resizeNearestRGBA src srcW srcH dstW dstH ! ((y * dstW + x) * 4 + c)
         = rd src ((y * srcH div dstH * srcW + x * srcW div dstW) * 4 + c)"
proof -
  have "y * dstW + x < y * dstW + dstW" using x by simp
  also have "\<dots> = Suc y * dstW" by simp
  also have "\<dots> \<le> dstH * dstW" using y by (intro mult_le_mono1) simp
  finally have "(y * dstW + x) * 4 + c < dstW * dstH * 4" using c by (simp add: mult.commute)
  then have "resizeNearestRGBA src srcW srcH dstW dstH ! ((y * dstW + x) * 4 + c)
        = resized_at src srcW srcH dstW dstH (4 * (y * dstW + x) + c)"
    by (simp add: resize_nth mult.commute)
  also have "\<dots> = rd src ((floor_div (y * srcH) dstH * srcW + floor_div (x * srcW) dstW) * 4 + c)"
    by (rule resized_at_block[OF x c])
  also have "floor_div (y * srcH) dstH = y * srcH div dstH"
  proof (rule floor_div_exact)
    show "0 < dstH" using y by simp
    have "y * srcH \<le> dstH * srcH" using y by (intro mult_le_mono1) simp
    also have "\<dots> = srcH * dstH" by (rule mult.commute)
    also note H
    finally show "y * srcH < 2 ^ 53" .
  qed
  also have "floor_div (x * srcW) dstW = x * srcW div dstW"
  proof (rule floor_div_exact)
    show "0 < dstW" using x by simp
    have "x * srcW \<le> dstW * srcW" using x by (intro mult_le_mono1) simp
    also have "\<dots> = srcW * dstW" by (rule mult.commute)
    also note W
    finally show "x * srcW < 2 ^ 53" .
  qed
  finally show ?thesis .
qed

lemma floorlog_examples: "floorlog 2 1024 = 11" "floorlog 2 1568 = 11" "floorlog 2 1176 = 11"
  by (simp_all add: compute_floorlog)
lemma quotient_1024_1568: "round53 1024 1568 = (5882252574524729, - 53)"
  by (simp add: round53_def floorlog_examples below_pow2_def rne_def Let_def)
lemma quotient_1024_1176: "round53 1024 1176 = (7843003432699639, - 53)"
  by (simp add: round53_def floorlog_examples below_pow2_def rne_def Let_def)
lemma product_1568: "dbl_floor (dbl_mul_nat 1568 (5882252574524729, - 53)) = 1023"
  by (simp add: dbl_mul_nat_def round53_def compute_floorlog below_pow2_def rne_def Let_def dbl_floor_def)
lemma product_1176: "dbl_floor (dbl_mul_nat 1176 (5882252574524729, - 53)) = 767"
  by (simp add: dbl_mul_nat_def round53_def compute_floorlog below_pow2_def rne_def Let_def dbl_floor_def)
lemma smaller_quotient: "dbl_le (5882252574524729, - 53) (7843003432699639, - 53)"
  by (simp add: dbl_le_def dval_def)
lemma new_dims_1568_1176: "new_dims 1024 1568 1176 = Some (1023, 767)"
  by (simp add: new_dims_def js_div_def quotient_1024_1568 quotient_1024_1176 smaller_quotient product_1568 product_1176)
lemma new_dims_100_50: "new_dims 50 100 50 = Some (50, 25)"
  by (simp add: new_dims_def js_div_def dbl_le_def dval_def dbl_mul_nat_def round53_def compute_floorlog below_pow2_def rne_def Let_def dbl_floor_def)

text \<open>
  C6, as the code has it. The image is resampled exactly when \<open>max width height\<close>
  exceeds \<open>maxSize\<close> (1024 unless given). Each new dimension is
  \<open>max 1 (floor (dim * scale))\<close> with \<open>scale = min (maxSize / width) (maxSize / height)\<close>
  in double arithmetic: it is \<open>floor (dim * maxSize / max width height)\<close> or one less,
  and at least 1; an image of 100 by 50 with \<open>maxSize = 50\<close> becomes 50 by 25. The
  resampler returns \<open>dstW * dstH * 4\<close> bytes, and the four bytes of the destination
  pixel \<open>(x, y)\<close> are those of the source pixel
  \<open>(floor (x * srcW / dstW), floor (y * srcH / dstH))\<close>, which lies inside the source
  image.
\<close>

theorem resampled_when_over_max_size:
  "max_size None = 1024 \<and>
   (\<not> maxSize < max width height \<longrightarrow>
      size_check maxSize (width, height, rgba) = Inr (width, height, rgba)) \<and>
   (maxSize < max width height \<longrightarrow>
      size_check maxSize (width, height, rgba)
        = (case new_dims maxSize width height of
             None \<Rightarrow> Inl RangeError
           | Some (nw, nh) \<Rightarrow> Inr (nw, nh, resizeNearestRGBA rgba width height nw nh))) \<and>
   (0 < width \<and> 0 < height \<and> max width height * maxSize \<le> 2 ^ 51 \<longrightarrow>
      (\<exists>nw nh. new_dims maxSize width height = Some (nw, nh) \<and>
         1 \<le> nw \<and> nw \<le> exact_dim maxSize width height width \<and>
         exact_dim maxSize width height width \<le> nw + 1 \<and>
         1 \<le> nh \<and> nh \<le> exact_dim maxSize width height height \<and>
         exact_dim maxSize width height height \<le> nh + 1)) \<and>
   new_dims 50 100 50 = Some (50, 25) \<and>
   length (resizeNearestRGBA src srcW srcH dstW dstH) = dstW * dstH * 4 \<and>
   (x < dstW \<and> y < dstH \<and> c < 4 \<and> srcW * dstW < 2 ^ 53 \<and> srcH * dstH < 2 ^ 53 \<longrightarrow>
      resizeNearestRGBA src srcW srcH dstW dstH ! ((y * dstW + x) * 4 + c)
        = rd src ((y * srcH div dstH * srcW + x * srcW div dstW) * 4 + c) \<and>
      (0 < srcW \<longrightarrow> x * srcW div dstW < srcW) \<and> (0 < srcH \<longrightarrow> y * srcH div dstH < srcH))"
proof -
  have c1: "max_size None = 1024" by (simp add: max_size_def)
  have c2: "\<not> maxSize < max width height \<longrightarrow>
      size_check maxSize (width, height, rgba) = Inr (width, height, rgba)"
    using size_check_within by blast
  have c3: "maxSize < max width height \<longrightarrow>
      size_check maxSize (width, height, rgba)
        = (case new_dims maxSize width height of
             None \<Rightarrow> Inl RangeError
           | Some (nw, nh) \<Rightarrow> Inr (nw, nh, resizeNearestRGBA rgba width height nw nh))"
    by (auto simp: size_check_def)
  have c4: "0 < width \<and> 0 < height \<and> max width height * maxSize \<le> 2 ^ 51 \<longrightarrow>
      (\<exists>nw nh. new_dims maxSize width height = Some (nw, nh) \<and>
         1 \<le> nw \<and> nw \<le> exact_dim maxSize width height width \<and>
         exact_dim maxSize width height width \<le> nw + 1 \<and>
         1 \<le> nh \<and> nh \<le> exact_dim maxSize width height height \<and>
         exact_dim maxSize width height height \<le> nh + 1)"
  proof
    assume h: "0 < width \<and> 0 < height \<and> max width height * maxSize \<le> 2 ^ 51"
    then obtain nw nh where n: "new_dims maxSize width height = Some (nw, nh)"
        "nw \<le> exact_dim maxSize width height width"
        "exact_dim maxSize width height width \<le> nw + 1"
        "nh \<le> exact_dim maxSize width height height"
        "exact_dim maxSize width height height \<le> nh + 1"
      using new_dims_bounds[of width height maxSize] by blast
    from new_dims_pos[OF n(1)] n
    show "\<exists>nw nh. new_dims maxSize width height = Some (nw, nh) \<and>
         1 \<le> nw \<and> nw \<le> exact_dim maxSize width height width \<and>
         exact_dim maxSize width height width \<le> nw + 1 \<and>
         1 \<le> nh \<and> nh \<le> exact_dim maxSize width height height \<and>
         exact_dim maxSize width height height \<le> nh + 1"
      by blast
  qed
  have c6: "length (resizeNearestRGBA src srcW srcH dstW dstH) = dstW * dstH * 4"
    by (rule length_resize)
  have c7: "x < dstW \<and> y < dstH \<and> c < 4 \<and> srcW * dstW < 2 ^ 53 \<and> srcH * dstH < 2 ^ 53 \<longrightarrow>
      resizeNearestRGBA src srcW srcH dstW dstH ! ((y * dstW + x) * 4 + c)
        = rd src ((y * srcH div dstH * srcW + x * srcW div dstW) * 4 + c) \<and>
      (0 < srcW \<longrightarrow> x * srcW div dstW < srcW) \<and> (0 < srcH \<longrightarrow> y * srcH div dstH < srcH)"
    using resized_pixel[of x dstW y dstH c srcW srcH src]
      source_pixel_inside[of x dstW srcW] source_pixel_inside[of y dstH srcH]
    by blast
  show ?thesis by (intro conjI; (fact c1 c2 c3 c4 new_dims_100_50 c6 c7))
qed

theorem resampled_when_over_max_size_witness:
  "(50::nat) < max 100 50 \<and>
   size_check 50 (100, 50, []) = Inr (50, 25, resizeNearestRGBA [] 100 50 50 25) \<and>
   length (resizeNearestRGBA [] 100 50 50 25) = 50 * 25 * 4 \<and>
   \<not> 1024 < max 640 (480::nat) \<and> size_check 1024 (640, 480, []) = Inr (640, 480, []) \<and>
   max 1568 1176 * 1024 \<le> (2::nat) ^ 51 \<and>
   (\<exists>nw nh. new_dims 1024 1568 1176 = Some (nw, nh) \<and> 1023 \<le> nw \<and> nw \<le> 1024 \<and>
        767 \<le> nh \<and> nh \<le> 768) \<and>
   resizeNearestRGBA [1, 2, 3, 4, 5, 6, 7, 8] 2 1 1 1 ! 2 = 3 \<and>
   (0::nat) * 2 div 1 < 2 \<and> (0::nat) * 1 div 1 < 1"
proof -
  have a: "(50::nat) < max 100 50" by simp
  note A = resampled_when_over_max_size[of 50 100 50 "[]" "[]" 100 50 50 25 0 0 0]
  from A a have "size_check 50 (100, 50, [])
        = (case new_dims 50 100 50 of
             None \<Rightarrow> Inl RangeError
           | Some (nw, nh) \<Rightarrow> Inr (nw, nh, resizeNearestRGBA [] 100 50 nw nh))"
    by blast
  moreover from A have "new_dims 50 100 50 = Some (50, 25)" by blast
  ultimately have w1: "size_check 50 (100, 50, []) = Inr (50, 25, resizeNearestRGBA [] 100 50 50 25)"
    by simp
  from A have w2: "length (resizeNearestRGBA [] 100 50 50 25) = 50 * 25 * 4" by blast
  have b: "\<not> 1024 < max 640 (480::nat)" by simp
  note B = resampled_when_over_max_size[of 1024 640 480 "[]" "[1, 2, 3, 4, 5, 6, 7, 8]" 2 1 1 1 0 0 2]
  from B b have w3: "size_check 1024 (640, 480, []) = Inr (640, 480, [])" by blast
  have c: "(0::nat) < 1 \<and> (0::nat) < 1 \<and> (2::nat) < 4 \<and> (2::nat) * 1 < 2 ^ 53 \<and> (1::nat) * 1 < 2 ^ 53"
    by simp
  note P = B[THEN conjunct2, THEN conjunct2, THEN conjunct2, THEN conjunct2, THEN conjunct2,
      THEN conjunct2, THEN mp, OF c]
  from P have w6: "(0::nat) * 2 div 1 < 2 \<and> (0::nat) * 1 div 1 < 1" by simp
  from P have "resizeNearestRGBA [1, 2, 3, 4, 5, 6, 7, 8] 2 1 1 1 ! ((0 * 1 + 0) * 4 + 2)
        = rd [1, 2, 3, 4, 5, 6, 7, 8] ((0 * 1 div 1 * 2 + 0 * 2 div 1) * 4 + 2)"
    by (rule conjunct1)
  then have w4: "resizeNearestRGBA [1, 2, 3, 4, 5, 6, 7, 8] 2 1 1 1 ! 2 = 3"
    by (simp add: rd_def numeral_2_eq_2)
  have d: "(0::nat) < 1568 \<and> (0::nat) < 1176 \<and> max 1568 1176 * 1024 \<le> (2::nat) ^ 51" by simp
  note D = resampled_when_over_max_size[of 1024 1568 1176 "[]" "[]" 1 1 1 1 0 0 0]
  from D d obtain nw nh where n: "new_dims 1024 1568 1176 = Some (nw, nh)"
      "nw \<le> exact_dim 1024 1568 1176 1568" "exact_dim 1024 1568 1176 1568 \<le> nw + 1"
      "nh \<le> exact_dim 1024 1568 1176 1176" "exact_dim 1024 1568 1176 1176 \<le> nh + 1"
    by blast
  have e: "exact_dim 1024 1568 1176 1568 = 1024" "exact_dim 1024 1568 1176 1176 = 768"
    by (simp_all add: exact_dim_def)
  from n have "1023 \<le> nw \<and> nw \<le> 1024 \<and> 767 \<le> nh \<and> nh \<le> 768" unfolding e by simp
  with n(1) have w5: "\<exists>nw nh. new_dims 1024 1568 1176 = Some (nw, nh) \<and> 1023 \<le> nw \<and> nw \<le> 1024 \<and>
        767 \<le> nh \<and> nh \<le> 768" by blast
  from a w1 w2 b w3 d w4 w5 w6 show ?thesis by blast
qed

text \<open>
  An image of 1568 by 1176 with the default \<open>maxSize\<close>: the exact dimensions are 1024
  by 768, the code resamples to 1023 by 767, because \<open>1024 / 1568\<close> is rounded down and
  the two products fall just below 1024 and 768.
\<close>

theorem resampled_one_less_than_exact:
  "max_size None = 1024 \<and>
   size_check 1024 (1568, 1176, replicate (1568 * 1176 * 4) 0)
     = Inr (1023, 767, resizeNearestRGBA (replicate (1568 * 1176 * 4) 0) 1568 1176 1023 767) \<and>
   exact_dim 1024 1568 1176 1568 = 1024 \<and> exact_dim 1024 1568 1176 1176 = 768"
  by (simp add: max_size_def size_check_def new_dims_1568_1176 exact_dim_def)

section \<open>The value returned\<close>

lemma local_bmp_passthrough:
  "fst (ensureBmpForMedia failing_decoders ''/img.bmp'' None (local_files [(''/img.bmp'', sig_bmp)]))
     = Some ''file:///img.bmp''"
proof -
  let ?w = "local_files [(''/img.bmp'', sig_bmp)]"
  have tm: "toMediaPath failing_decoders ''/img.bmp'' ?w = (Some ''file:///img.bmp'', ?w)"
    by (simp add: toMediaPath_local startsWith_def strip_file_def)
  have rd: "readFile ''file:///img.bmp'' ?w = Some sig_bmp"
    by (simp add: readFile_def strip_file_def startsWith_def local_files_def)
  have m: "mime_of sig_bmp = BMP" by (simp add: mime_of_table sig_defs)
  show ?thesis by (simp add: ensure_unfold[OF tm rd] m)
qed

text \<open>
  C7, as the code has it. For every successful normalization, the pass-through branch
  and the encode-and-write branch alike, the value returned is the scheme prefix
  \<open>file://\<close> followed by the path of a file that exists when the call returns; the
  caller strips the prefix.
\<close>

theorem returned_value_is_file_uri:
  "fst (ensureBmpForMedia ev uri opt w) = Some p \<Longrightarrow>
   \<exists>q. p = ''file://'' @ q \<and> files (snd (ensureBmpForMedia ev uri opt w)) q \<noteq> None"
  using returned_path[of ev uri opt w p "snd (ensureBmpForMedia ev uri opt w)"]
  by (cases "ensureBmpForMedia ev uri opt w") simp


theorem returned_value_is_file_uri_witness:
  "fst (ensureBmpForMedia failing_decoders ''/img.bmp'' None (local_files [(''/img.bmp'', sig_bmp)]))
     = Some ''file:///img.bmp'' \<and>
   files (snd (ensureBmpForMedia failing_decoders ''/img.bmp'' None
                 (local_files [(''/img.bmp'', sig_bmp)]))) ''/img.bmp'' \<noteq> None"
proof -
  from returned_value_is_file_uri[OF local_bmp_passthrough]
  obtain q where "''file:///img.bmp'' = ''file://'' @ q"
    and "files (snd (ensureBmpForMedia failing_decoders ''/img.bmp'' None
                 (local_files [(''/img.bmp'', sig_bmp)]))) q \<noteq> None"
    by blast
  then show ?thesis using local_bmp_passthrough by simp
qed

text \<open>A bitmap passed through comes back with the scheme prefix.\<close>

theorem passthrough_returns_file_uri:
  "fst (ensureBmpForMedia failing_decoders ''/img.bmp'' None (local_files [(''/img.bmp'', sig_bmp)]))
     = Some ''file:///img.bmp'' \<and> startsWith ''file:///img.bmp'' ''file://''"
  using local_bmp_passthrough by (simp add: startsWith_def)


section \<open>The references the resolver accepts\<close>

text \<open>
  C8, as the code has it. The resolver accepts a local reference (a path that starts
  with \<open>/\<close>, or a \<open>file://\<close> URI), which it returns as a \<open>file://\<close> URI without
  looking at the file system, and an \<open>http://\<close> or \<open>https://\<close> URL, which it downloads
  into the cache. Every other reference, a content-provider URI (\<open>content://\<close>) among
  them, gives the no-attachment result.
\<close>

theorem resolver_classes:
  "(startsWith uri ''file://'' \<or> startsWith uri ''/'' \<longrightarrow>
      toMediaPath ev uri w = (Some (''file://'' @ strip_file uri), w)) \<and>
   ((startsWith uri ''http://'' \<or> startsWith uri ''https://'') \<and>
    remote w (length (requested w)) uri = Some content \<and>
    writable w (cache_file ev (clock w (ticks w)) (url_ext uri)) \<longrightarrow>
      fst (toMediaPath ev uri w) = Some (''file://'' @ cache_file ev (clock w (ticks w)) (url_ext uri)) \<and>
      files (snd (toMediaPath ev uri w)) (cache_file ev (clock w (ticks w)) (url_ext uri)) = Some content) \<and>
   (\<not> startsWith uri ''file://'' \<and> \<not> startsWith uri ''/'' \<and>
    \<not> startsWith uri ''http://'' \<and> \<not> startsWith uri ''https://'' \<longrightarrow>
      toMediaPath ev uri w = (None, w)) \<and>
   (startsWith uri ''content://'' \<longrightarrow> toMediaPath ev uri w = (None, w))"
proof (intro conjI impI)
  assume "startsWith uri ''file://'' \<or> startsWith uri ''/''"
  then show "toMediaPath ev uri w = (Some (''file://'' @ strip_file uri), w)"
    by (rule toMediaPath_local)
next
  assume h: "(startsWith uri ''http://'' \<or> startsWith uri ''https://'') \<and>
    remote w (length (requested w)) uri = Some content \<and>
    writable w (cache_file ev (clock w (ticks w)) (url_ext uri))"
  then show "fst (toMediaPath ev uri w) = Some (''file://'' @ cache_file ev (clock w (ticks w)) (url_ext uri))"
    and "files (snd (toMediaPath ev uri w)) (cache_file ev (clock w (ticks w)) (url_ext uri)) = Some content"
    by (simp_all add: toMediaPath_http Let_def)
next
  assume "\<not> startsWith uri ''file://'' \<and> \<not> startsWith uri ''/'' \<and>
    \<not> startsWith uri ''http://'' \<and> \<not> startsWith uri ''https://''"
  then show "toMediaPath ev uri w = (None, w)" by (simp add: toMediaPath_other)
next
  assume "startsWith uri ''content://''"
  then obtain t where "uri = ''content://'' @ t" by (auto dest: startsWith_append)
  then show "toMediaPath ev uri w = (None, w)"
    by (simp add: toMediaPath_def startsWith_def)
qed


theorem resolver_classes_witness:
  "startsWith ''/sdcard/a.png'' ''/'' \<and>
   toMediaPath failing_decoders ''/sdcard/a.png'' (local_files [])
     = (Some ''file:///sdcard/a.png'', local_files []) \<and>
   startsWith ''https://example.org/a.png?x=1'' ''https://'' \<and>
   remote (serving ''https://example.org/a.png?x=1'' sig_png)
     (length (requested (serving ''https://example.org/a.png?x=1'' sig_png)))
     ''https://example.org/a.png?x=1'' = Some sig_png \<and>
   writable (serving ''https://example.org/a.png?x=1'' sig_png) ''/cache/llm_img_1000.png'' \<and>
   fst (toMediaPath failing_decoders ''https://example.org/a.png?x=1''
          (serving ''https://example.org/a.png?x=1'' sig_png))
     = Some ''file:///cache/llm_img_1000.png'' \<and>
   files (snd (toMediaPath failing_decoders ''https://example.org/a.png?x=1''
                 (serving ''https://example.org/a.png?x=1'' sig_png))) ''/cache/llm_img_1000.png''
     = Some sig_png \<and>
   startsWith ''content://media/external/images/media/42'' ''content://'' \<and>
   toMediaPath failing_decoders ''content://media/external/images/media/42'' (local_files [])
     = (None, local_files []) \<and>
   \<not> startsWith ''ph://asset/7'' ''file://'' \<and> \<not> startsWith ''ph://asset/7'' ''/'' \<and>
   \<not> startsWith ''ph://asset/7'' ''http://'' \<and> \<not> startsWith ''ph://asset/7'' ''https://'' \<and>
   toMediaPath failing_decoders ''ph://asset/7'' (local_files []) = (None, local_files [])"
proof -
  let ?u = "''https://example.org/a.png?x=1''"
  let ?w = "serving ?u sig_png"
  have c: "cache_file failing_decoders (clock ?w (ticks ?w)) (url_ext ?u) = ''/cache/llm_img_1000.png''"
    by (simp add: cache_file_def failing_decoders_def serving_def decimal.simps digit_def
          url_ext_def split_first_def alnum_def)
  have h1: "startsWith ''/sdcard/a.png'' ''/''" by (simp add: startsWith_def)
  have h2: "startsWith ?u ''https://''" by (simp add: startsWith_def)
  have h3: "remote ?w (length (requested ?w)) ?u = Some sig_png" by (simp add: serving_def)
  have h4: "writable ?w ''/cache/llm_img_1000.png''" by (simp add: serving_def)
  have h5: "startsWith ''content://media/external/images/media/42'' ''content://''"
    by (simp add: startsWith_def)
  have a: "toMediaPath failing_decoders ''/sdcard/a.png'' (local_files [])
     = (Some (''file://'' @ strip_file ''/sdcard/a.png''), local_files [])"
    using resolver_classes[of "''/sdcard/a.png''" failing_decoders "local_files []"] h1 by blast
  have b: "fst (toMediaPath failing_decoders ?u ?w) = Some (''file://'' @ ''/cache/llm_img_1000.png'') \<and>
      files (snd (toMediaPath failing_decoders ?u ?w)) ''/cache/llm_img_1000.png'' = Some sig_png"
    using resolver_classes[of ?u failing_decoders ?w sig_png] h2 h3 h4 unfolding c by blast
  have d: "toMediaPath failing_decoders ''content://media/external/images/media/42'' (local_files [])
     = (None, local_files [])"
    using resolver_classes[of "''content://media/external/images/media/42''" failing_decoders
        "local_files []"] h5 by blast
  have h6: "\<not> startsWith ''ph://asset/7'' ''file://'' \<and> \<not> startsWith ''ph://asset/7'' ''/'' \<and>
    \<not> startsWith ''ph://asset/7'' ''http://'' \<and> \<not> startsWith ''ph://asset/7'' ''https://''"
    by (simp add: startsWith_def)
  have e: "toMediaPath failing_decoders ''ph://asset/7'' (local_files []) = (None, local_files [])"
    using resolver_classes[of "''ph://asset/7''" failing_decoders "local_files []"] h6 by blast
  show ?thesis using a b d e h1 h2 h3 h4 h5 by (simp add: strip_file_def startsWith_def)
qed

text \<open>A content-provider URI is not resolved.\<close>

theorem content_uri_unresolved:
  "fst (toMediaPath failing_decoders ''content://media/external/images/media/42''
          (local_files [])) = None"
  by (simp add: toMediaPath_def startsWith_def)


section \<open>The name of the output file\<close>







section \<open>The alternate rendition that is requested\<close>

text \<open>
  C10. For a WEBP-classified URL that carries the hint in the form \<open>format=webp\<close>, the
  URL requested next is the reference with every occurrence of the hint, with either
  separator, replaced by \<open>format:jpeg\<close>: the equals form is rewritten to the colon form,
  never to \<open>format=jpeg\<close>. The rewriting leaves no hint behind, replaces the first
  occurrence whatever its separator and goes on behind it, and changes nothing where no
  hint occurs. (The recursive call requests the same URL once more.)
\<close>

theorem alternate_request_colon_form:
  assumes "startsWith uri ''http://'' \<or> startsWith uri ''https://''"
    and "includes_str uri ''format=webp''"
    and "remote w (length (requested w)) uri = Some bs"
    and "writable w (cache_file ev (clock w (ticks w)) (url_ext uri))"
    and "mime_of bs = WEBP"
  shows "(requested (snd (ensureBmpForMedia ev uri opt w)) = requested w @ [uri, replace_hint uri] \<or>
          requested (snd (ensureBmpForMedia ev uri opt w))
            = requested w @ [uri, replace_hint uri, replace_hint uri]) \<and>
         \<not> includes_str (replace_hint uri) ''format=webp'' \<and>
         \<not> includes_str (replace_hint uri) ''format:webp'' \<and>
         ((sep = CHR '':'' \<or> sep = CHR ''='') \<and> \<not> occurs (pre @ ''format'' @ [sep] @ ''web'') \<longrightarrow>
            replace_hint (pre @ ''format'' @ [sep] @ ''webp'' @ post)
              = pre @ ''format:jpeg'' @ replace_hint post) \<and>
         (\<not> occurs post \<longrightarrow> replace_hint post = post)"
proof -
  let ?dest = "cache_file ev (clock w (ticks w)) (url_ext uri)"
  let ?w1 = "w\<lparr>ticks := Suc (ticks w), requested := requested w @ [uri],
               files := (files w)(?dest \<mapsto> bs)\<rparr>"
  let ?alt = "replace_hint uri"
  have hint: "has_hint uri" using assms(2) by (simp add: has_hint_def)
  have tm: "toMediaPath ev uri w = (Some (''file://'' @ ?dest), ?w1)"
    using assms(3,4) by (simp add: toMediaPath_http[OF assms(1)] Let_def)
  have rd: "readFile (''file://'' @ ?dest) ?w1 = Some bs"
    by (simp add: readFile_def strip_file_Cons)
  have E: "ensureBmpForMedia ev uri opt w =
           (if fst (webp_alternative ev uri ?w1)
            then single_pass ev ?alt opt (snd (webp_alternative ev uri ?w1))
            else encode_and_write ev opt placeholder (snd (webp_alternative ev uri ?w1)))"
    by (simp add: ensure_unfold[OF tm rd] assms(5) ensure_single_pass[OF no_hint_replace])
  have ra: "requested (snd (webp_alternative ev uri ?w1)) = requested w @ [uri, ?alt]"
    using requested_webp_alternative[OF assms(1) hint, of ev ?w1] by simp
  have rs: "requested (snd (single_pass ev ?alt opt (snd (webp_alternative ev uri ?w1))))
            = requested w @ [uri, ?alt, ?alt]"
    using requested_toMediaPath_http[OF replace_hint_http[OF assms(1)]]
    by (simp add: requested_single_pass ra)
  have req: "requested (snd (ensureBmpForMedia ev uri opt w)) = requested w @ [uri, ?alt] \<or>
          requested (snd (ensureBmpForMedia ev uri opt w)) = requested w @ [uri, ?alt, ?alt]"
    using ra rs by (simp add: E requested_encode_and_write)
  have nh: "\<not> includes_str ?alt ''format=webp'' \<and> \<not> includes_str ?alt ''format:webp''"
    using no_hint_replace[of uri] by (simp add: has_hint_def)
  show ?thesis using req nh replace_hint_first[of sep pre post] replace_hint_none[of post] by blast
qed

theorem alternate_request_colon_form_witness:
  "startsWith ''https://cdn.example/img?format=webp'' ''https://'' \<and>
   includes_str ''https://cdn.example/img?format=webp'' ''format=webp'' \<and>
   remote (serving ''https://cdn.example/img?format=webp'' webp_header)
     (length (requested (serving ''https://cdn.example/img?format=webp'' webp_header)))
     ''https://cdn.example/img?format=webp'' = Some webp_header \<and>
   writable (serving ''https://cdn.example/img?format=webp'' webp_header)
     (cache_file failing_decoders 1000 ''jpg'') \<and>
   mime_of webp_header = WEBP \<and>
   \<not> occurs (''https://cdn.example/img?'' @ ''format=web'') \<and>
   replace_hint ''https://cdn.example/img?format=webp'' = ''https://cdn.example/img?format:jpeg'' \<and>
   requested (snd (ensureBmpForMedia failing_decoders ''https://cdn.example/img?format=webp'' None
                (serving ''https://cdn.example/img?format=webp'' webp_header)))
     \<in> {[''https://cdn.example/img?format=webp'', ''https://cdn.example/img?format:jpeg''],
         [''https://cdn.example/img?format=webp'', ''https://cdn.example/img?format:jpeg'',
          ''https://cdn.example/img?format:jpeg'']}"
proof -
  let ?u = "''https://cdn.example/img?format=webp''"
  let ?w = "serving ?u webp_header"
  have h1: "startsWith ?u ''http://'' \<or> startsWith ?u ''https://''" by (simp add: startsWith_def)
  have h2: "includes_str ?u ''format=webp''" by (simp add: startsWith_def)
  have h3: "remote ?w (length (requested ?w)) ?u = Some webp_header" by (simp add: serving_def)
  have e: "url_ext ?u = ''jpg''" by (simp add: url_ext_def split_first_def alnum_def)
  have k: "clock ?w (ticks ?w) = 1000" by (simp add: serving_def)
  have h4: "writable ?w (cache_file failing_decoders (clock ?w (ticks ?w)) (url_ext ?u))"
    by (simp add: serving_def)
  have o: "\<not> occurs (''https://cdn.example/img?'' @ ''format=web'')" by (simp add: hint_re_def)
  have o': "\<not> occurs (''https://cdn.example/img?'' @ ''format'' @ [CHR ''=''] @ ''web'')"
    using o by simp
  have n: "\<not> occurs []" by simp
  note T = alternate_request_colon_form[where ev = failing_decoders and opt = None
      and pre = "''https://cdn.example/img?''" and post = "[]" and sep = "CHR ''=''",
      OF h1 h2 h3 h4 mime_of_webp_header]
  from T o' n
  have "replace_hint (''https://cdn.example/img?'' @ ''format'' @ [CHR ''=''] @ ''webp'' @ [])
          = ''https://cdn.example/img?'' @ ''format:jpeg'' @ replace_hint []"
    and "replace_hint [] = []"
    by blast+
  then have r': "replace_hint ?u = ''https://cdn.example/img?format:jpeg''" by simp
  from T have "requested (snd (ensureBmpForMedia failing_decoders ?u None ?w))
       = requested ?w @ [?u, replace_hint ?u] \<or>
     requested (snd (ensureBmpForMedia failing_decoders ?u None ?w))
       = requested ?w @ [?u, replace_hint ?u, replace_hint ?u]"
    by blast
  moreover have "requested ?w = []" by (simp add: serving_def)
  ultimately have q: "requested (snd (ensureBmpForMedia failing_decoders ?u None ?w))
     \<in> {[?u, ''https://cdn.example/img?format:jpeg''],
         [?u, ''https://cdn.example/img?format:jpeg'', ''https://cdn.example/img?format:jpeg'']}"
    unfolding r' by auto
  have h4': "writable ?w (cache_file failing_decoders 1000 ''jpg'')" by (simp add: serving_def)
  show ?thesis using h1 h2 h3 h4' mime_of_webp_header o r' q
    by (simp add: startsWith_def)
qed

end

